theory Spec2Isabelle
  imports Main
begin

section \<open>The connection registry of a noPoll context (nopoll_ctx.c)\<close>

text \<open>
  The embedding follows the C source function by function. A pointer that may be NULL is
  an \<open>option\<close> (\<open>None\<close> is NULL). Everything the C program can do besides returning
  normally is a value of \<open>error\<close>: reading through a NULL pointer, indexing outside the
  allocated block, overflowing one of the signed \<open>int\<close>s that count references or cells
  (undefined behaviour in C), and calling through a context pointer after the context has
  been freed.
\<close>

subsection \<open>Data model\<close>

datatype error = NullDeref | OutOfBounds | SignedOverflow | UseAfterFree

text \<open>
  Connection objects are numbered: \<open>Some n\<close> is the pointer to connection object \<open>n\<close>
  (whatever \<open>n\<close>, 0 included), \<open>None\<close> is NULL. A cell of \<open>conn_list\<close> holds such a pointer.
\<close>

type_synonym noPollConn_ptr = nat
type_synonym slot = "noPollConn_ptr option"

text \<open>
  The fields of \<open>noPollCtx\<close> that nopoll_ctx.c reads or writes. The counters are C
  \<open>int\<close>s (the accessors \<open>nopoll_ctx_conns\<close> and \<open>nopoll_conn_get_id\<close> return \<open>int\<close>,
  and the loops compare them with \<open>int iterator\<close>); they are integers here, holding
  values from \<open>INT_MIN\<close> to \<open>INT_MAX\<close>. Every increment and decrement of \<open>refs\<close>,
  \<open>conn_num\<close> and \<open>conn_length\<close> checks the range of a 32-bit \<open>int\<close>; the increment of
  the id counter \<open>conn_id\<close> wraps (\<open>next_id\<close> below). \<open>conn_list\<close> is NULL or a heap block
  of cells.
\<close>

record noPollCtx =
  refs :: int
  conn_id :: int
  conn_connect_std_timeout :: int
  not_executed :: bool
  debug_enabled :: bool
  not_executed_color :: bool
  debug_color_enabled :: bool
  backlog :: int
  conn_length :: int
  conn_num :: int
  conn_list :: "slot list option"

datatype noPollDebugLevel = NOPOLL_LEVEL_CRITICAL

text \<open>
  What lives outside the context: the \<open>id\<close> field of every connection object (field
  \<open>conn->id\<close>, here \<open>id_of h conn\<close>), and the calls of \<open>nopoll_log\<close> with their level
  and message, in call order.
\<close>

record heap =
  id_of :: "noPollConn_ptr \<Rightarrow> int"
  logged :: "(noPollDebugLevel \<times> string) list"

definition INT_MAX :: int where
  "INT_MAX = 2147483647"

definition INT_MIN :: int where
  "INT_MIN = - 2147483648"

text \<open>
  \<open>ctx->conn_id ++\<close>. The source tests no bound before it, and the counter goes up with
  every registration for as long as the program runs, whatever is unregistered in
  between. At \<open>INT_MAX\<close> the increment overflows, which C leaves undefined; the compiled
  code performs the two's-complement addition, so the value that follows \<open>INT_MAX\<close> is
  \<open>INT_MIN\<close>, and the call goes on.
\<close>

definition next_id :: "int \<Rightarrow> int" where
  "next_id n = (if n = INT_MAX then INT_MIN else n + 1)"

text \<open>Reading and writing cell \<open>i\<close> of the block \<open>conn_list\<close> points to.\<close>

definition slot_get :: "slot list option \<Rightarrow> int \<Rightarrow> error + slot" where
  "slot_get l i =
     (case l of
        None \<Rightarrow> Inl NullDeref
      | Some xs \<Rightarrow> if 0 \<le> i \<and> i < int (length xs) then Inr (xs ! nat i) else Inl OutOfBounds)"

definition slot_set :: "slot list option \<Rightarrow> int \<Rightarrow> slot \<Rightarrow> error + slot list" where
  "slot_set l i v =
     (case l of
        None \<Rightarrow> Inl NullDeref
      | Some xs \<Rightarrow> if 0 \<le> i \<and> i < int (length xs) then Inr (xs[nat i := v]) else Inl OutOfBounds)"

subsection \<open>nopoll_ctx_new\<close>

text \<open>
  Modelled from the spec: \<open>nopoll_new\<close> is a macro of a header that is not among the
  sources. The spec's \<open>create()\<close> returns a context with an empty registry, and
  \<open>nopoll_ctx_new\<close> never assigns \<open>conn_num\<close> or \<open>conn_list\<close>, so the block it gets is
  zeroed (as from calloc). Its argument says whether the allocation succeeded.
\<close>

definition nopoll_new :: "bool \<Rightarrow> noPollCtx option" where
  "nopoll_new ok =
     (if ok then
        Some \<lparr> refs = 0, conn_id = 0, conn_connect_std_timeout = 0, not_executed = False,
               debug_enabled = False, not_executed_color = False, debug_color_enabled = False,
               backlog = 0, conn_length = 0, conn_num = 0, conn_list = None \<rparr>
      else None)"

definition nopoll_ctx_new :: "bool \<Rightarrow> noPollCtx option" where
  "nopoll_ctx_new ok =
     (case nopoll_new ok of
        None \<Rightarrow> None
      | Some result \<Rightarrow>
          Some (result\<lparr> refs := 1, conn_id := 1, conn_connect_std_timeout := 20000000,
                        not_executed := True, debug_enabled := False,
                        not_executed_color := True, debug_color_enabled := False,
                        backlog := 5, conn_length := 0 \<rparr>))"

subsection \<open>nopoll_ctx_ref and nopoll_ctx_unref\<close>

text \<open>
  \<open>nopoll_return_val_if_fail (ctx, expr, val)\<close> and \<open>nopoll_return_if_fail (ctx, expr)\<close>
  are macros of a header that is not among the sources; by their names and their use they
  return (\<open>val\<close>) at once when \<open>expr\<close> is false.
\<close>

definition nopoll_ctx_ref :: "noPollCtx option \<Rightarrow> error + (bool \<times> noPollCtx option)" where
  "nopoll_ctx_ref ctx =
     (case ctx of
        None \<Rightarrow> Inr (False, None)
      | Some c \<Rightarrow>
          if INT_MAX \<le> refs c then Inl SignedOverflow
          else Inr (True, Some (c\<lparr> refs := refs c + 1 \<rparr>)))"

text \<open>
  \<open>nopoll_free\<close>, \<open>nopoll_realloc\<close> and \<open>nopoll_log\<close> are functions of other files of the
  library (its wrappers of free and realloc, and its logger); the model records what they
  are called with.

  The blocks \<open>nopoll_ctx_unref\<close> hands to \<open>nopoll_free\<close>, in call order: the slot block
  (with what \<open>conn_list\<close> held, NULL included) and the context itself, as it was when it
  was freed (\<open>conn_length\<close> has just been set to 0). The context that comes back is \<open>None\<close>
  when the call was given NULL or has freed the object.
\<close>

datatype freed = FreedConnList "slot list option" | FreedCtx noPollCtx

definition nopoll_ctx_unref :: "noPollCtx option \<Rightarrow> error + (noPollCtx option \<times> freed list)" where
  "nopoll_ctx_unref ctx =
     (case ctx of
        None \<Rightarrow> Inr (None, [])
      | Some c \<Rightarrow>
          if refs c \<le> INT_MIN then Inl SignedOverflow
          else
            let c1 = c\<lparr> refs := refs c - 1 \<rparr> in
            if refs c1 \<noteq> 0 then Inr (Some c1, [])
            else
              let c2 = c1\<lparr> conn_length := 0 \<rparr> in
              Inr (None, [FreedConnList (conn_list c1), FreedCtx c2]))"

subsection \<open>nopoll_ctx_register_conn\<close>

text \<open>
  The first loop: the lowest cell below \<open>conn_length\<close> that is NULL takes the connection
  and \<open>conn_num\<close> goes up. \<open>Inr (Some ctx')\<close> is the \<open>return\<close> inside the loop,
  \<open>Inr None\<close> is the loop running off the end.
\<close>

function register_place :: "noPollCtx \<Rightarrow> noPollConn_ptr \<Rightarrow> int \<Rightarrow> error + noPollCtx option" where
  "register_place ctx conn iterator =
     (if iterator < conn_length ctx then
        (case slot_get (conn_list ctx) iterator of
           Inl e \<Rightarrow> Inl e
         | Inr None \<Rightarrow>
             (case slot_set (conn_list ctx) iterator (Some conn) of
                Inl e \<Rightarrow> Inl e
              | Inr xs \<Rightarrow>
                  if INT_MAX \<le> conn_num ctx then Inl SignedOverflow
                  else Inr (Some (ctx\<lparr> conn_list := Some xs, conn_num := conn_num ctx + 1 \<rparr>)))
         | Inr (Some other) \<Rightarrow> register_place ctx conn (iterator + 1))
      else Inr None)"
  by pat_completeness auto
termination
  by (relation "measure (\<lambda>(ctx, conn, iterator). nat (conn_length ctx - iterator))") auto

declare register_place.simps [simp del]

text \<open>
  What \<open>nopoll_realloc\<close> answers is not decided by the program: NULL, or a block of the
  requested number of cells that keeps the old cells and whose further cells hold
  whatever the allocator left there (\<open>junk i\<close> for cell \<open>i\<close>).
\<close>

datatype realloc_answer = ReallocNull | ReallocBlock "nat \<Rightarrow> slot"

definition nopoll_realloc :: "realloc_answer \<Rightarrow> slot list option \<Rightarrow> int \<Rightarrow> slot list option" where
  "nopoll_realloc answer l n =
     (case answer of
        ReallocNull \<Rightarrow> None
      | ReallocBlock junk \<Rightarrow>
          let old = (case l of None \<Rightarrow> [] | Some xs \<Rightarrow> xs) in
          Some (map (\<lambda>i. if i < length old then old ! i else junk i) [0 ..< nat n]))"

text \<open>The second loop: cells \<open>iterator\<close> up to \<open>len - 1\<close> are set to NULL.\<close>

function register_clear :: "slot list \<Rightarrow> int \<Rightarrow> int \<Rightarrow> error + slot list" where
  "register_clear xs iterator len =
     (if iterator < len then
        (case slot_set (Some xs) iterator None of
           Inl e \<Rightarrow> Inl e
         | Inr xs' \<Rightarrow> register_clear xs' (iterator + 1) len)
      else Inr xs)"
  by pat_completeness auto
termination
  by (relation "measure (\<lambda>(xs, iterator, len). nat (len - iterator))") auto

declare register_clear.simps [simp del]

text \<open>
  The function itself. After the block has grown it calls itself, so the assignment of
  \<open>conn->id\<close> and the increment of \<open>conn_id\<close> at its head run a second time. The
  connection's \<open>id\<close> field is an \<open>int\<close> like the counter.
\<close>

function nopoll_ctx_register_conn ::
  "realloc_answer \<Rightarrow> noPollCtx option \<Rightarrow> noPollConn_ptr option \<Rightarrow> heap
     \<Rightarrow> error + (noPollCtx option \<times> heap)" where
  "nopoll_ctx_register_conn answer ctx conn h =
     (case (ctx, conn) of
        (Some c, Some p) \<Rightarrow>
          let h1 = h\<lparr> id_of := (id_of h)(p := conn_id c) \<rparr>;
              c1 = c\<lparr> conn_id := next_id (conn_id c) \<rparr>
          in
          (case register_place c1 p 0 of
             Inl e \<Rightarrow> Inl e
           | Inr (Some c2) \<Rightarrow> Inr (Some c2, h1)
           | Inr None \<Rightarrow>
               if INT_MAX - 10 < conn_length c1 then Inl SignedOverflow
               else
                 let c3 = c1\<lparr> conn_length := conn_length c1 + 10 \<rparr>;
                     c4 = c3\<lparr> conn_list := nopoll_realloc answer (conn_list c3) (conn_length c3) \<rparr>
                 in
                 (case conn_list c4 of
                    None \<Rightarrow>
                      Inr (Some c4,
                           h1\<lparr> logged := logged h1 @
                                 [(NOPOLL_LEVEL_CRITICAL,
                                   ''General connection registration error, memory acquisition failed..'')] \<rparr>)
                  | Some xs \<Rightarrow>
                      (case register_clear xs (conn_length c4 - 10) (conn_length c4) of
                         Inl e \<Rightarrow> Inl e
                       | Inr xs' \<Rightarrow>
                           nopoll_ctx_register_conn answer
                             (Some (c4\<lparr> conn_list := Some xs' \<rparr>)) (Some p) h1)))
      | _ \<Rightarrow> Inr (ctx, h))"
  by pat_completeness auto

subsection \<open>nopoll_ctx_unregister_conn\<close>

text \<open>
  The loop compares \<open>ctx->conn_list[iterator]->id\<close> with \<open>conn->id\<close>: it reads the \<open>id\<close>
  field through the cell without testing the cell, so a NULL cell is a read through NULL.
\<close>

function unregister_scan :: "noPollCtx \<Rightarrow> noPollConn_ptr \<Rightarrow> heap \<Rightarrow> int \<Rightarrow> error + noPollCtx" where
  "unregister_scan ctx conn h iterator =
     (if iterator < conn_length ctx then
        (case slot_get (conn_list ctx) iterator of
           Inl e \<Rightarrow> Inl e
         | Inr None \<Rightarrow> Inl NullDeref
         | Inr (Some other) \<Rightarrow>
             if id_of h other = id_of h conn then
               (case slot_set (conn_list ctx) iterator None of
                  Inl e \<Rightarrow> Inl e
                | Inr xs \<Rightarrow>
                    if conn_num ctx \<le> INT_MIN then Inl SignedOverflow
                    else Inr (ctx\<lparr> conn_list := Some xs, conn_num := conn_num ctx - 1 \<rparr>))
             else unregister_scan ctx conn h (iterator + 1))
      else Inr ctx)"
  by pat_completeness auto
termination
  by (relation "measure (\<lambda>(ctx, conn, h, iterator). nat (conn_length ctx - iterator))") auto

declare unregister_scan.simps [simp del]

definition nopoll_ctx_unregister_conn ::
  "noPollCtx option \<Rightarrow> noPollConn_ptr option \<Rightarrow> heap \<Rightarrow> error + noPollCtx option" where
  "nopoll_ctx_unregister_conn ctx conn h =
     (case (ctx, conn) of
        (Some c, Some p) \<Rightarrow>
          (case unregister_scan c p h 0 of Inl e \<Rightarrow> Inl e | Inr c' \<Rightarrow> Inr (Some c'))
      | _ \<Rightarrow> Inr ctx)"

subsection \<open>nopoll_ctx_conns\<close>

definition nopoll_ctx_conns :: "noPollCtx option \<Rightarrow> int" where
  "nopoll_ctx_conns ctx = (case ctx of None \<Rightarrow> - 1 | Some c \<Rightarrow> conn_num c)"

subsection \<open>nopoll_ctx_foreach_conn\<close>

text \<open>
  The handler is a C function given the context pointer, a connection and \<open>user_data\<close>;
  it answers true (stop) or false. While it runs it can do what any caller holding those
  pointers can do: change what \<open>user_data\<close> points to (the state \<open>'u\<close>), register or
  unregister connections on the context, change connection objects and log (the heap),
  release the context (it then hands back \<open>None\<close>), or not come back (an \<open>error\<close>). So a
  handler maps the context and the heap it is called on to its answer and to the context
  and the heap it leaves.

  The loop reads \<open>ctx->conn_length\<close> and the cell anew in every round, and when the
  handler has answered true it reads the cell once more: the connection it returns is
  what the cell holds after the call. Nothing bounds the number of rounds when the
  handler makes the table grow, so the loop is a partial function: \<open>None\<close> is a loop that
  never ends. The result carries the context, the heap and the user state as the last
  handler call left them, and the connections the handler was called on, in call order.
  (The function's \<open>@brief\<close> comment says the connection is returned when the handler
  returns \<open>nopoll_true\<close>, as the code does; its \<open>@return\<close> comment says it the other way
  round.)
\<close>

type_synonym 'u noPollForeachConn =
  "noPollCtx \<Rightarrow> heap \<Rightarrow> noPollConn_ptr \<Rightarrow> 'u \<Rightarrow> error + (bool \<times> noPollCtx option \<times> heap \<times> 'u)"

type_synonym 'u foreach_result = "slot \<times> noPollCtx option \<times> heap \<times> 'u \<times> noPollConn_ptr list"

partial_function (option) foreach_loop ::
  "'u noPollForeachConn \<Rightarrow> noPollCtx \<Rightarrow> heap \<Rightarrow> 'u \<Rightarrow> noPollConn_ptr list \<Rightarrow> int
     \<Rightarrow> (error + 'u foreach_result) option" where
  "foreach_loop foreach ctx h user_data calls iterator =
     (if iterator < conn_length ctx then
        (case slot_get (conn_list ctx) iterator of
           Inl e \<Rightarrow> Some (Inl e)
         | Inr None \<Rightarrow> foreach_loop foreach ctx h user_data calls (iterator + 1)
         | Inr (Some p) \<Rightarrow>
             (case foreach ctx h p user_data of
                Inl e \<Rightarrow> Some (Inl e)
              | Inr (stop, None, h', user_data') \<Rightarrow> Some (Inl UseAfterFree)
              | Inr (stop, Some ctx', h', user_data') \<Rightarrow>
                  if stop then
                    (case slot_get (conn_list ctx') iterator of
                       Inl e \<Rightarrow> Some (Inl e)
                     | Inr result \<Rightarrow>
                         Some (Inr (result, Some ctx', h', user_data', calls @ [p])))
                  else foreach_loop foreach ctx' h' user_data' (calls @ [p]) (iterator + 1)))
      else Some (Inr (None, Some ctx, h, user_data, calls)))"

definition nopoll_ctx_foreach_conn ::
  "noPollCtx option \<Rightarrow> 'u noPollForeachConn option \<Rightarrow> 'u \<Rightarrow> heap
     \<Rightarrow> (error + 'u foreach_result) option" where
  "nopoll_ctx_foreach_conn ctx foreach user_data h =
     (case (ctx, foreach) of
        (Some c, Some f) \<Rightarrow> foreach_loop f c h user_data [] 0
      | _ \<Rightarrow> Some (Inr (None, ctx, h, user_data, [])))"

text \<open>
  Two kinds of handler. A quiet handler reads the context and the connection, changes
  \<open>user_data\<close> at most, and leaves the context and the heap as they are. The handler
  \<open>unregister_and_stop\<close> calls \<open>nopoll_ctx_unregister_conn\<close> on the connection it is given
  and answers true.
\<close>

type_synonym 'u reader = "noPollCtx \<Rightarrow> noPollConn_ptr \<Rightarrow> 'u \<Rightarrow> bool \<times> 'u"

definition quiet :: "'u reader \<Rightarrow> 'u noPollForeachConn" where
  "quiet g = (\<lambda>ctx h p u. case g ctx p u of (stop, u') \<Rightarrow> Inr (stop, Some ctx, h, u'))"

definition unregister_and_stop :: "'u noPollForeachConn" where
  "unregister_and_stop =
     (\<lambda>ctx h p u.
        case nopoll_ctx_unregister_conn (Some ctx) (Some p) h of
          Inl e \<Rightarrow> Inl e
        | Inr ctx' \<Rightarrow> Inr (True, ctx', h, u))"

subsection \<open>Sequences of calls on one context\<close>

text \<open>
  An application holds one context pointer and calls the functions above on it, one call
  after the other. The state between two calls is the context object (\<open>None\<close> once
  \<open>nopoll_ctx_unref\<close> has freed it: the pointer dangles, and any further call through it
  is a use after free) and the heap.
\<close>

datatype call =
    Ref
  | Unref
  | Register realloc_answer "noPollConn_ptr option"
  | Unregister "noPollConn_ptr option"

fun step :: "call \<Rightarrow> noPollCtx option \<times> heap \<Rightarrow> error + (noPollCtx option \<times> heap)" where
  "step k (None, h) = Inl UseAfterFree"
| "step Ref (Some c, h) =
     (case nopoll_ctx_ref (Some c) of Inl e \<Rightarrow> Inl e | Inr r \<Rightarrow> Inr (snd r, h))"
| "step Unref (Some c, h) =
     (case nopoll_ctx_unref (Some c) of Inl e \<Rightarrow> Inl e | Inr r \<Rightarrow> Inr (fst r, h))"
| "step (Register answer conn) (Some c, h) = nopoll_ctx_register_conn answer (Some c) conn h"
| "step (Unregister conn) (Some c, h) =
     (case nopoll_ctx_unregister_conn (Some c) conn h of
        Inl e \<Rightarrow> Inl e
      | Inr ctx' \<Rightarrow> Inr (ctx', h))"

fun run :: "call list \<Rightarrow> noPollCtx option \<times> heap \<Rightarrow> error + (noPollCtx option \<times> heap)" where
  "run [] s = Inr s"
| "run (k # ks) s = (case step k s of Inl e \<Rightarrow> Inl e | Inr s' \<Rightarrow> run ks s')"


subsection \<open>Reading a context\<close>

text \<open>
  The slot table of a context is the first \<open>conn_length\<close> cells of \<open>conn_list\<close>; a NULL
  \<open>conn_list\<close> has no cell. \<open>live\<close> lists the connections of the cells that are not
  NULL, in slot order. \<open>registry_ok\<close> says that \<open>conn_length\<close> is the size of the block.
\<close>

definition cells :: "noPollCtx \<Rightarrow> slot list" where
  "cells c = (case conn_list c of None \<Rightarrow> [] | Some xs \<Rightarrow> take (nat (conn_length c)) xs)"

definition live :: "noPollCtx \<Rightarrow> noPollConn_ptr list" where
  "live c = map the (filter (\<lambda>s. s \<noteq> None) (cells c))"

definition registry_ok :: "noPollCtx \<Rightarrow> bool" where
  "registry_ok c =
     (case conn_list c of
        None \<Rightarrow> conn_length c = 0
      | Some xs \<Rightarrow> conn_length c = int (length xs))"

text \<open>
  The live count is right when \<open>conn_num\<close> is the number of cells that are not NULL.
\<close>

definition counted :: "noPollCtx \<Rightarrow> bool" where
  "counted c = (conn_num c = int (length (live c)))"

text \<open>
  The spec's words for \<open>for_each\<close>, on the list of live connections: call the handler on
  each in turn; at the first call that answers stop, return that connection; when no call
  answers stop, return none. The result also carries the state the handler left and the
  connections it was called on.
\<close>

fun visit ::
  "'u reader \<Rightarrow> noPollCtx \<Rightarrow> 'u \<Rightarrow> noPollConn_ptr list
     \<Rightarrow> slot \<times> 'u \<times> noPollConn_ptr list" where
  "visit foreach ctx user_data [] = (None, user_data, [])"
| "visit foreach ctx user_data (p # ps) =
     (case foreach ctx p user_data of
        (stop, user_data') \<Rightarrow>
          if stop then (Some p, user_data', [p])
          else (case visit foreach ctx user_data' ps of
                  (r, user_data'', called) \<Rightarrow> (r, user_data'', p # called)))"


text \<open>A call whose growth allocation, if it makes one, succeeds.\<close>

fun alloc_succeeds :: "call \<Rightarrow> bool" where
  "alloc_succeeds (Register ReallocNull conn) = False"
| "alloc_succeeds k = True"

text \<open>A context has a free cell when one of its first \<open>conn_length\<close> cells reads as NULL.\<close>

definition free_cell :: "noPollCtx \<Rightarrow> bool" where
  "free_cell c =
     (\<exists>j \<in> set [0 ..< nat (conn_length c)]. slot_get (conn_list c) (int j) = Inr None)"

subsection \<open>Concrete states\<close>

text \<open>
  The context \<open>nopoll_ctx_new\<close> returns when its allocation succeeds, a heap in which
  every connection object still has \<open>id\<close> 0 and nothing is logged, and an allocator answer
  that fills the new cells with non-NULL leftovers.
\<close>

definition fresh_ctx :: noPollCtx where
  "fresh_ctx =
     \<lparr> refs = 1, conn_id = 1, conn_connect_std_timeout = 20000000, not_executed = True,
       debug_enabled = False, not_executed_color = True, debug_color_enabled = False,
       backlog = 5, conn_length = 0, conn_num = 0, conn_list = None \<rparr>"

definition heap0 :: heap where
  "heap0 = \<lparr> id_of = (\<lambda>p. 0), logged = [] \<rparr>"

definition dirty :: realloc_answer where
  "dirty = ReallocBlock (\<lambda>i. Some (1000 + i))"

text \<open>The context after ten registrations on \<open>fresh_ctx\<close>: connections 0 to 9 fill the ten cells.\<close>

definition full10 :: noPollCtx where
  "full10 = fresh_ctx\<lparr> conn_id := 12, conn_length := 10, conn_num := 10,
                        conn_list := Some [Some 0, Some 1, Some 2, Some 3, Some 4, Some 5, Some 6,
                                           Some 7, Some 8, Some 9] \<rparr>"

text \<open>
  The heap after those ten registrations (the first took id 2), the context after an
  eleventh registration has grown the block, the context after an eleventh registration
  whose allocation failed, and the context after the first registration on \<open>fresh_ctx\<close>.
\<close>

definition heap10 :: heap where
  "heap10 = heap0\<lparr> id_of := (id_of heap0)(0 := 2, 1 := 3, 2 := 4, 3 := 5, 4 := 6, 5 := 7,
                                            6 := 8, 7 := 9, 8 := 10, 9 := 11) \<rparr>"

definition grown11 :: noPollCtx where
  "grown11 = full10\<lparr> conn_id := 14, conn_length := 20, conn_num := 11,
                       conn_list := Some (cells full10 @ Some 10 # replicate 9 None) \<rparr>"

definition lost10 :: noPollCtx where
  "lost10 = full10\<lparr> conn_id := 13, conn_length := 20, conn_list := None \<rparr>"

definition grown1 :: noPollCtx where
  "grown1 = fresh_ctx\<lparr> conn_id := 3, conn_length := 10, conn_num := 1,
                        conn_list := Some (Some 1 # replicate 9 None) \<rparr>"

text \<open>The context after connections 8, 6, 4, 2 and 0 have left \<open>full10\<close>, in that order.\<close>

definition odd5 :: noPollCtx where
  "odd5 = full10\<lparr> conn_num := 5,
                    conn_list := Some [None, Some 1, None, Some 3, None, Some 5, None, Some 7,
                                       None, Some 9] \<rparr>"


section \<open>The loops of nopoll_ctx_register_conn, and its termination\<close>

lemma free_cell_iff:
  "free_cell c \<longleftrightarrow> (\<exists>j. 0 \<le> j \<and> j < conn_length c \<and> slot_get (conn_list c) j = Inr None)"
proof
  assume "free_cell c"
  then obtain n where "n < nat (conn_length c)" "slot_get (conn_list c) (int n) = Inr None"
    by (auto simp: free_cell_def)
  then show "\<exists>j. 0 \<le> j \<and> j < conn_length c \<and> slot_get (conn_list c) j = Inr None"
    by (intro exI[of _ "int n"]) auto
next
  assume "\<exists>j. 0 \<le> j \<and> j < conn_length c \<and> slot_get (conn_list c) j = Inr None"
  then obtain j where "0 \<le> j" "j < conn_length c" "slot_get (conn_list c) j = Inr None"
    by blast
  then have "nat j \<in> set [0 ..< nat (conn_length c)]"
    and "slot_get (conn_list c) (int (nat j)) = Inr None"
    by auto
  then show "free_cell c" unfolding free_cell_def by blast
qed

lemma register_place_none:
  "register_place c p i = Inr None \<Longrightarrow> i \<le> j \<Longrightarrow> j < conn_length c
     \<Longrightarrow> \<exists>q. slot_get (conn_list c) j = Inr (Some q)"
proof (induction c p i rule: register_place.induct)
  case (1 ctx conn iterator)
  show ?case
  proof (cases "j = iterator")
    case True
    with "1.prems" show ?thesis
      by (subst (asm) register_place.simps) (auto split: sum.splits option.splits if_splits)
  next
    case False
    with "1.prems" have lt: "iterator < conn_length ctx" and le: "iterator + 1 \<le> j" by auto
    from "1.prems"(1) lt obtain other where
      g: "slot_get (conn_list ctx) iterator = Inr (Some other)"
      and r: "register_place ctx conn (iterator + 1) = Inr None"
      by (subst (asm) register_place.simps) (auto split: sum.splits option.splits if_splits)
    from "1.IH"[OF lt g refl r le "1.prems"(3)] show ?thesis .
  qed
qed

lemma register_clear_cells:
  "register_clear xs i n = Inr xs' \<Longrightarrow>
     length xs' = length xs \<and>
     (\<forall>j. i \<le> j \<and> j < n \<longrightarrow> 0 \<le> j \<and> j < int (length xs) \<and> xs' ! nat j = None) \<and>
     (\<forall>j. 0 \<le> j \<and> j < i \<longrightarrow> xs' ! nat j = xs ! nat j)"
proof (induction xs i n arbitrary: xs' rule: register_clear.induct)
  case (1 xs iterator len)
  show ?case
  proof (cases "iterator < len")
    case False
    with "1.prems" show ?thesis by (subst (asm) register_clear.simps) auto
  next
    case True
    with "1.prems" obtain ys where
      s: "slot_set (Some xs) iterator None = Inr ys"
      and r: "register_clear ys (iterator + 1) len = Inr xs'"
      by (subst (asm) register_clear.simps) (auto split: sum.splits)
    from s have b: "0 \<le> iterator" "iterator < int (length xs)"
      and ys: "ys = xs[nat iterator := None]"
      by (auto simp: slot_set_def split: if_splits)
    note ih = "1.IH"[OF True s r]
    show ?thesis
    proof (intro conjI allI impI)
      show "length xs' = length xs" using ih ys by simp
    next
      fix j assume j: "iterator \<le> j \<and> j < len"
      show "0 \<le> j" using j b by simp
      show "j < int (length xs)"
      proof (cases "j = iterator")
        case True then show ?thesis using b by simp
      next
        case False
        then have "iterator + 1 \<le> j \<and> j < len" using j by simp
        with ih ys show ?thesis by simp
      qed
      show "xs' ! nat j = None"
      proof (cases "j = iterator")
        case True
        have "xs' ! nat iterator = ys ! nat iterator" using ih b by simp
        then show ?thesis using True ys b by simp
      next
        case False
        then have "iterator + 1 \<le> j \<and> j < len" using j by simp
        with ih show ?thesis by simp
      qed
    next
      fix j assume j: "0 \<le> j \<and> j < iterator"
      then have "xs' ! nat j = ys ! nat j" using ih by simp
      also have "\<dots> = xs ! nat j"
      proof -
        have "nat iterator \<noteq> nat j" using j by linarith
        then show ?thesis using ys by simp
      qed
      finally show "xs' ! nat j = xs ! nat j" .
    qed
  qed
qed

text \<open>
  The call the function makes on itself comes after a scan that found no free cell and a
  clearing loop that ran: the context it passes has a free cell, so that call returns
  from its scan. One retry is all there is.
\<close>

termination nopoll_ctx_register_conn
proof (relation "measure (\<lambda>(answer, ctx, conn, h).
           case ctx of None \<Rightarrow> 0 | Some c \<Rightarrow> if free_cell c then 0 else (1::nat))", goal_cases)
  case 1
  show ?case by simp
next
  case (2 answer ctx conn h x y c p h1 c1 b c3 c4 xs xs')
  have c1: "conn_list c1 = conn_list c" "conn_length c1 = conn_length c" using 2 by simp_all
  have nofree: "\<not> free_cell c"
  proof
    assume "free_cell c"
    then obtain j where j: "0 \<le> j" "j < conn_length c" "slot_get (conn_list c) j = Inr None"
      unfolding free_cell_iff by blast
    from 2 have "register_place c1 p 0 = Inr None" by simp
    from register_place_none[OF this, of j] j c1 show False by simp
  qed
  have len: "conn_length c4 = conn_length c + 10" using 2 by simp
  from 2 have "register_clear xs (conn_length c4 - 10) (conn_length c4) = Inr xs'" by simp
  from register_clear_cells[OF this] len
  have "0 \<le> conn_length c \<and> conn_length c < int (length xs') \<and> xs' ! nat (conn_length c) = None"
    by auto
  then have "free_cell (c4\<lparr>conn_list := Some xs'\<rparr>)"
    unfolding free_cell_iff slot_get_def using len
    by (intro exI[of _ "conn_length c"]) simp
  with nofree 2 show ?case by auto
qed

declare nopoll_ctx_register_conn.simps [simp del]

section \<open>What the loops compute on a context whose block has \<open>conn_length\<close> cells\<close>

lemma register_place_full:
  "conn_list c = Some xs \<Longrightarrow> conn_length c = int (length xs) \<Longrightarrow> 0 \<le> i
     \<Longrightarrow> (\<And>j. nat i \<le> j \<Longrightarrow> j < length xs \<Longrightarrow> xs ! j \<noteq> None)
     \<Longrightarrow> register_place c p i = Inr None"
proof (induction c p i rule: register_place.induct)
  case (1 ctx conn iterator)
  show ?case
  proof (cases "iterator < conn_length ctx")
    case False
    then show ?thesis by (subst register_place.simps) simp
  next
    case True
    with "1.prems" have "xs ! nat iterator \<noteq> None" by simp
    then obtain other where o: "xs ! nat iterator = Some other" by blast
    with True "1.prems" have g: "slot_get (conn_list ctx) iterator = Inr (Some other)"
      by (simp add: slot_get_def)
    have "register_place ctx conn (iterator + 1) = Inr None"
      using "1.prems" by (intro "1.IH"[OF True g refl]) auto
    with True g show ?thesis by (subst register_place.simps) simp
  qed
qed

lemma register_place_free:
  "conn_list c = Some xs \<Longrightarrow> conn_length c = int (length xs) \<Longrightarrow> 0 \<le> i
     \<Longrightarrow> nat i \<le> k \<Longrightarrow> k < length xs \<Longrightarrow> xs ! k = None
     \<Longrightarrow> (\<And>j. nat i \<le> j \<Longrightarrow> j < k \<Longrightarrow> xs ! j \<noteq> None)
     \<Longrightarrow> conn_num c < INT_MAX
     \<Longrightarrow> register_place c p i =
           Inr (Some (c\<lparr> conn_list := Some (xs[k := Some p]), conn_num := conn_num c + 1 \<rparr>))"
proof (induction c p i rule: register_place.induct)
  case (1 ctx conn iterator)
  from "1.prems" have lt: "iterator < conn_length ctx" by simp
  show ?case
  proof (cases "nat iterator = k")
    case True
    with "1.prems" have g: "slot_get (conn_list ctx) iterator = Inr None"
      by (auto simp: slot_get_def)
    from True "1.prems" have s: "slot_set (conn_list ctx) iterator (Some conn) = Inr (xs[k := Some conn])"
      by (auto simp: slot_set_def)
    from lt g s "1.prems"(8) show ?thesis by (subst register_place.simps) simp
  next
    case False
    with "1.prems" have "xs ! nat iterator \<noteq> None" by simp
    then obtain other where o: "xs ! nat iterator = Some other" by blast
    with lt "1.prems" have g: "slot_get (conn_list ctx) iterator = Inr (Some other)"
      by (simp add: slot_get_def)
    have "register_place ctx conn (iterator + 1) =
            Inr (Some (ctx\<lparr> conn_list := Some (xs[k := Some conn]), conn_num := conn_num ctx + 1 \<rparr>))"
      using "1.prems" False by (intro "1.IH"[OF lt g refl]) auto
    with lt g show ?thesis by (subst register_place.simps) simp
  qed
qed

lemma register_clear_block:
  "0 \<le> i \<Longrightarrow> i \<le> n \<Longrightarrow> n \<le> int (length ys)
     \<Longrightarrow> register_clear ys i n =
           Inr (take (nat i) ys @ replicate (nat (n - i)) None @ drop (nat n) ys)"
proof (induction ys i n rule: register_clear.induct)
  case (1 xs iterator len)
  show ?case
  proof (cases "iterator < len")
    case False
    with "1.prems" show ?thesis by (subst register_clear.simps) simp
  next
    case True
    with "1.prems" have s: "slot_set (Some xs) iterator None = Inr (xs[nat iterator := None])"
      by (simp add: slot_set_def)
    have ih: "register_clear (xs[nat iterator := None]) (iterator + 1) len =
            Inr (take (nat (iterator + 1)) (xs[nat iterator := None])
                 @ replicate (nat (len - (iterator + 1))) None
                 @ drop (nat len) (xs[nat iterator := None]))"
      using "1.prems" True by (intro "1.IH"[OF True s]) auto
    have a: "nat (iterator + 1) = Suc (nat iterator)" using "1.prems" by simp
    have b: "nat (len - iterator) = Suc (nat (len - (iterator + 1)))" using True by simp
    have c: "nat iterator < length xs" using "1.prems" True by simp
    have d: "take (Suc (nat iterator)) (xs[nat iterator := None]) = take (nat iterator) xs @ [None]"
      using c by (simp add: take_Suc_conv_app_nth)
    have e: "drop (nat len) (xs[nat iterator := None]) = drop (nat len) xs"
      using True "1.prems" by simp
    show ?thesis
      by (subst register_clear.simps) (simp add: True s ih a b d e replicate_app_Cons_same)
  qed
qed

lemma registry_ok_cells:
  "registry_ok c \<Longrightarrow> conn_length c = int (length (cells c))"
  by (auto simp: registry_ok_def cells_def split: option.splits)

lemma registry_ok_cases:
  assumes "registry_ok c"
  obtains "conn_list c = None" "conn_length c = 0" "cells c = []"
  | xs where "conn_list c = Some xs" "conn_length c = int (length xs)" "cells c = xs"
  using assms by (auto simp: registry_ok_def cells_def split: option.splits)

lemma register_place_full_ok:
  assumes ok: "registry_ok c" and full: "None \<notin> set (cells c)"
  shows "register_place c p 0 = Inr None"
  using ok
proof (cases rule: registry_ok_cases)
  case 1
  then show ?thesis by (subst register_place.simps) simp
next
  case (2 xs)
  show ?thesis
  proof (rule register_place_full[OF 2(1) 2(2)])
    fix j assume "j < length xs"
    with full 2(3) show "xs ! j \<noteq> None" by (metis nth_mem)
  qed simp
qed

lemma grown_block:
  "map (\<lambda>i. if i < length old then old ! i else junk i) [0 ..< length old + m] =
     old @ map junk [length old ..< length old + m]"
proof -
  have "map (\<lambda>i. if i < length old then old ! i else junk i) [0 ..< length old] = old"
    by (rule nth_equalityI) simp_all
  then show ?thesis
    by (simp only: upt_add_eq_append[OF le0] map_append) simp
qed

lemma nopoll_realloc_block:
  assumes ok: "registry_ok c"
  shows "nopoll_realloc (ReallocBlock junk) (conn_list c) (conn_length c + 10) =
           Some (cells c @ map junk [length (cells c) ..< length (cells c) + 10])"
  using ok
proof (cases rule: registry_ok_cases)
  case 1
  then show ?thesis
    using grown_block[of "[]" junk 10] by (simp add: nopoll_realloc_def)
next
  case (2 xs)
  have "nat (int (length xs) + 10) = length xs + 10" by simp
  with 2 show ?thesis
    using grown_block[of xs junk 10] by (simp add: nopoll_realloc_def)
qed

lemma register_direct:
  assumes ok: "registry_ok c" and xs: "conn_list c = Some xs"
    and k: "k < length xs" "xs ! k = None" and low: "\<And>j. j < k \<Longrightarrow> xs ! j \<noteq> None"
    and id: "conn_id c < INT_MAX" and num: "conn_num c < INT_MAX"
  shows "nopoll_ctx_register_conn answer (Some c) (Some p) h =
           Inr (Some (c\<lparr> conn_id := conn_id c + 1, conn_num := conn_num c + 1,
                          conn_list := Some (xs[k := Some p]) \<rparr>),
                h\<lparr> id_of := (id_of h)(p := conn_id c) \<rparr>)"
proof -
  have len: "conn_length c = int (length xs)" using ok xs by (simp add: registry_ok_def)
  have "register_place (c\<lparr> conn_id := conn_id c + 1 \<rparr>) p 0 =
          Inr (Some (c\<lparr> conn_id := conn_id c + 1 \<rparr>
                     \<lparr> conn_list := Some (xs[k := Some p]),
                        conn_num := conn_num (c\<lparr> conn_id := conn_id c + 1 \<rparr>) + 1 \<rparr>))"
    by (rule register_place_free[where k = k]) (use xs len k low num in simp_all)
  then show ?thesis using id
    by (subst nopoll_ctx_register_conn.simps) (simp add: Let_def next_id_def)
qed

lemma register_grow:
  assumes ok: "registry_ok c" and full: "None \<notin> set (cells c)"
    and id: "conn_id c < INT_MAX - 1" and num: "conn_num c < INT_MAX"
    and len: "conn_length c \<le> INT_MAX - 10"
  shows "nopoll_ctx_register_conn (ReallocBlock junk) (Some c) (Some p) h =
           Inr (Some (c\<lparr> conn_id := conn_id c + 2, conn_length := conn_length c + 10,
                          conn_num := conn_num c + 1,
                          conn_list := Some (cells c @ Some p # replicate 9 None) \<rparr>),
                h\<lparr> id_of := (id_of h)(p := conn_id c + 1) \<rparr>)"
proof -
  let ?n = "length (cells c)"
  let ?c1 = "c\<lparr> conn_id := conn_id c + 1 \<rparr>"
  let ?h1 = "h\<lparr> id_of := (id_of h)(p := conn_id c) \<rparr>"
  let ?ys = "cells c @ map junk [?n ..< ?n + 10]"
  let ?zs = "cells c @ replicate 10 None"
  let ?c5 = "c\<lparr> conn_id := conn_id c + 1, conn_length := conn_length c + 10,
                 conn_list := Some ?zs \<rparr>"
  have n: "conn_length c = int ?n" by (rule registry_ok_cells[OF ok])
  have ok1: "registry_ok ?c1" "cells ?c1 = cells c"
    using ok by (simp_all add: registry_ok_def cells_def split: option.splits)
  have scan: "register_place ?c1 p 0 = Inr None"
    by (rule register_place_full_ok) (use ok1 full in simp_all)
  have re: "nopoll_realloc (ReallocBlock junk) (conn_list c) (conn_length c + 10) = Some ?ys"
    by (rule nopoll_realloc_block[OF ok])
  have "register_clear ?ys (conn_length c) (conn_length c + 10) =
          Inr (take (nat (conn_length c)) ?ys
               @ replicate (nat (conn_length c + 10 - conn_length c)) None
               @ drop (nat (conn_length c + 10)) ?ys)"
    by (rule register_clear_block) (simp_all add: n)
  then have clear: "register_clear ?ys (conn_length c) (conn_length c + 10) = Inr ?zs"
    by (simp add: n)
  have ok5: "registry_ok ?c5" by (simp add: registry_ok_def n)
  have z: "?zs ! ?n = None" "?zs[?n := Some p] = cells c @ Some p # replicate 9 None"
    by (simp_all add: nth_append list_update_append numeral_eq_Suc)
  have again: "nopoll_ctx_register_conn (ReallocBlock junk) (Some ?c5) (Some p) ?h1 =
          Inr (Some (?c5\<lparr> conn_id := conn_id ?c5 + 1, conn_num := conn_num ?c5 + 1,
                           conn_list := Some (?zs[?n := Some p]) \<rparr>),
               ?h1\<lparr> id_of := (id_of ?h1)(p := conn_id ?c5) \<rparr>)"
  proof (rule register_direct[OF ok5, where k = ?n])
    fix j assume j: "j < ?n"
    then have "cells c ! j \<in> set (cells c)" by simp
    with full have "cells c ! j \<noteq> None" by metis
    with j show "?zs ! j \<noteq> None" by (simp add: nth_append)
  qed (use id num z in simp_all)
  have nx: "next_id (conn_id c) = conn_id c + 1" using id by (simp add: next_id_def)
  show ?thesis
    using len
    by (subst nopoll_ctx_register_conn.simps)
       (simp add: Let_def nx scan re clear again z)
qed

lemma register_alloc_fails:
  assumes ok: "registry_ok c" and full: "None \<notin> set (cells c)"
    and id: "conn_id c < INT_MAX" and len: "conn_length c \<le> INT_MAX - 10"
  shows "nopoll_ctx_register_conn ReallocNull (Some c) (Some p) h =
           Inr (Some (c\<lparr> conn_id := conn_id c + 1, conn_length := conn_length c + 10,
                          conn_list := None \<rparr>),
                h\<lparr> id_of := (id_of h)(p := conn_id c),
                    logged := logged h @
                      [(NOPOLL_LEVEL_CRITICAL,
                        ''General connection registration error, memory acquisition failed..'')] \<rparr>)"
proof -
  let ?c1 = "c\<lparr> conn_id := conn_id c + 1 \<rparr>"
  have ok1: "registry_ok ?c1" "cells ?c1 = cells c"
    using ok by (simp_all add: registry_ok_def cells_def split: option.splits)
  have scan: "register_place ?c1 p 0 = Inr None"
    by (rule register_place_full_ok) (use ok1 full in simp_all)
  have nx: "next_id (conn_id c) = conn_id c + 1" using id by (simp add: next_id_def)
  show ?thesis
    using len
    by (subst nopoll_ctx_register_conn.simps)
       (simp add: Let_def nx scan nopoll_realloc_def)
qed

section \<open>How a call of nopoll_ctx_register_conn returns\<close>

lemma register_place_placed:
  "register_place c p i = Inr (Some c') \<Longrightarrow> 0 \<le> i \<Longrightarrow>
     \<exists>xs k. conn_list c = Some xs \<and> nat i \<le> k \<and> int k < conn_length c \<and> k < length xs
        \<and> xs ! k = None \<and> conn_num c < INT_MAX
        \<and> c' = c\<lparr> conn_list := Some (xs[k := Some p]), conn_num := conn_num c + 1 \<rparr>"
proof (induction c p i rule: register_place.induct)
  case (1 ctx conn iterator)
  from "1.prems"(1) have lt: "iterator < conn_length ctx"
    by (subst (asm) register_place.simps) (simp split: if_splits)
  from "1.prems"(1) lt obtain s where g: "slot_get (conn_list ctx) iterator = Inr s"
    by (subst (asm) register_place.simps) (auto split: sum.splits)
  then obtain xs where xs: "conn_list ctx = Some xs" "nat iterator < length xs" "s = xs ! nat iterator"
    using "1.prems"(2) by (auto simp: slot_get_def split: option.splits if_splits)
  show ?case
  proof (cases s)
    case None
    with "1.prems"(1) lt g xs "1.prems"(2)
    have "conn_num ctx < INT_MAX \<and>
          c' = ctx\<lparr> conn_list := Some (xs[nat iterator := Some conn]), conn_num := conn_num ctx + 1 \<rparr>"
      by (subst (asm) register_place.simps) (auto simp: slot_set_def split: if_splits)
    with xs None lt "1.prems"(2) show ?thesis
      by (intro exI[of _ xs] exI[of _ "nat iterator"]) simp
  next
    case (Some other)
    with "1.prems"(1) lt g have r: "register_place ctx conn (iterator + 1) = Inr (Some c')"
      by (subst (asm) register_place.simps) simp
    from "1.IH"[OF lt g[unfolded Some] refl r] "1.prems"(2)
    obtain ys k where "conn_list ctx = Some ys" "nat (iterator + 1) \<le> k" "int k < conn_length ctx"
      "k < length ys" "ys ! k = None" "conn_num ctx < INT_MAX"
      "c' = ctx\<lparr> conn_list := Some (ys[k := Some conn]), conn_num := conn_num ctx + 1 \<rparr>"
      by auto
    then show ?thesis
      by (intro exI[of _ ys] exI[of _ k]) simp
  qed
qed

lemma register_place_never_none:
  assumes "free_cell c"
  shows "register_place c p 0 \<noteq> Inr None"
proof
  assume n: "register_place c p 0 = Inr None"
  from assms obtain j where j: "0 \<le> j" "j < conn_length c" "slot_get (conn_list c) j = Inr None"
    unfolding free_cell_iff by blast
  from register_place_none[OF n j(1) j(2)] j(3) show False by simp
qed

text \<open>The three ways a call on a context and a connection returns.\<close>

lemma register_returns:
  assumes r: "nopoll_ctx_register_conn answer (Some c) (Some p) h = Inr r"
  obtains
    (direct) c2 where
      "register_place (c\<lparr> conn_id := next_id (conn_id c) \<rparr>) p 0 = Inr (Some c2)"
      "r = (Some c2, h\<lparr> id_of := (id_of h)(p := conn_id c) \<rparr>)"
  | (failed)
      "conn_length c \<le> INT_MAX - 10"
      "register_place (c\<lparr> conn_id := next_id (conn_id c) \<rparr>) p 0 = Inr None"
      "nopoll_realloc answer (conn_list c) (conn_length c + 10) = None"
      "r = (Some (c\<lparr> conn_id := next_id (conn_id c), conn_length := conn_length c + 10,
                      conn_list := None \<rparr>),
            h\<lparr> id_of := (id_of h)(p := conn_id c),
                logged := logged h @
                  [(NOPOLL_LEVEL_CRITICAL,
                    ''General connection registration error, memory acquisition failed..'')] \<rparr>)"
  | (grown) xs xs' c2 where
      "conn_length c \<le> INT_MAX - 10"
      "register_place (c\<lparr> conn_id := next_id (conn_id c) \<rparr>) p 0 = Inr None"
      "nopoll_realloc answer (conn_list c) (conn_length c + 10) = Some xs"
      "register_clear xs (conn_length c) (conn_length c + 10) = Inr xs'"
      "register_place (c\<lparr> conn_id := next_id (next_id (conn_id c)),
                          conn_length := conn_length c + 10,
                          conn_list := Some xs' \<rparr>) p 0 = Inr (Some c2)"
      "r = (Some c2, h\<lparr> id_of := (id_of h)(p := next_id (conn_id c)) \<rparr>)"
proof -
  let ?c1 = "c\<lparr> conn_id := next_id (conn_id c) \<rparr>"
  let ?h1 = "h\<lparr> id_of := (id_of h)(p := conn_id c) \<rparr>"
  from r obtain s where s: "register_place ?c1 p 0 = Inr s"
    by (subst (asm) nopoll_ctx_register_conn.simps) (auto simp: Let_def split: sum.splits)
  show thesis
  proof (cases s)
    case (Some c2)
    with r s have "r = (Some c2, ?h1)"
      by (subst (asm) nopoll_ctx_register_conn.simps) (simp add: Let_def)
    with s Some show thesis by (intro direct) simp_all
  next
    case None
    with r s have len: "conn_length c \<le> INT_MAX - 10"
      by (subst (asm) nopoll_ctx_register_conn.simps) (simp add: Let_def split: if_splits)
    show thesis
    proof (cases "nopoll_realloc answer (conn_list c) (conn_length c + 10)")
      case n: None
      with r s None len show thesis
        by (intro failed; subst (asm) nopoll_ctx_register_conn.simps) (simp_all add: Let_def)
    next
      case (Some xs)
      with r s None len obtain xs' where
        cl: "register_clear xs (conn_length c) (conn_length c + 10) = Inr xs'"
        by (subst (asm) nopoll_ctx_register_conn.simps) (auto simp: Let_def split: sum.splits)
      let ?c5 = "c\<lparr> conn_id := next_id (conn_id c), conn_length := conn_length c + 10,
                     conn_list := Some xs' \<rparr>"
      from r s None len Some cl
      have again: "nopoll_ctx_register_conn answer (Some ?c5) (Some p) ?h1 = Inr r"
        by (subst (asm) nopoll_ctx_register_conn.simps) (simp add: Let_def)
      from register_clear_cells[OF cl]
      have "0 \<le> conn_length c \<and> conn_length c < int (length xs') \<and> xs' ! nat (conn_length c) = None"
        by auto
      then have "free_cell (?c5\<lparr> conn_id := next_id (conn_id ?c5) \<rparr>)"
        unfolding free_cell_iff slot_get_def
        by (intro exI[of _ "conn_length c"]) simp
      from register_place_never_none[OF this]
      have nn: "register_place (?c5\<lparr> conn_id := next_id (conn_id ?c5) \<rparr>) p 0 \<noteq> Inr None" .
      from again obtain s2 where
        s2: "register_place (?c5\<lparr> conn_id := next_id (conn_id ?c5) \<rparr>) p 0 = Inr s2"
        by (subst (asm) nopoll_ctx_register_conn.simps) (auto simp: Let_def split: sum.splits)
      with nn obtain c2 where c2: "s2 = Some c2" by (cases s2) auto
      with again s2 have "r = (Some c2, ?h1\<lparr> id_of := (id_of ?h1)(p := conn_id ?c5) \<rparr>)"
        by (subst (asm) nopoll_ctx_register_conn.simps) (simp add: Let_def)
      then have r: "r = (Some c2, h\<lparr> id_of := (id_of h)(p := next_id (conn_id c)) \<rparr>)" by simp
      have eq: "?c5\<lparr> conn_id := next_id (conn_id ?c5) \<rparr> =
                  c\<lparr> conn_id := next_id (next_id (conn_id c)), conn_length := conn_length c + 10,
                     conn_list := Some xs' \<rparr>"
        by (cases c) simp
      have s2': "register_place (c\<lparr> conn_id := next_id (next_id (conn_id c)),
                                     conn_length := conn_length c + 10,
                                     conn_list := Some xs' \<rparr>) p 0 = Inr (Some c2)"
        using s2[unfolded eq] c2 by simp
      from len s[unfolded None] Some cl s2' r show thesis by (rule grown)
    qed
  qed
qed

section \<open>What the loop of nopoll_ctx_unregister_conn computes\<close>

lemma unregister_scan_returns:
  "unregister_scan c p h i = Inr c' \<Longrightarrow> 0 \<le> i \<Longrightarrow>
     (c' = c \<and>
      (\<forall>j. i \<le> j \<and> j < conn_length c \<longrightarrow>
           (\<exists>q. slot_get (conn_list c) j = Inr (Some q) \<and> id_of h q \<noteq> id_of h p)))
     \<or> (\<exists>xs k q. conn_list c = Some xs \<and> nat i \<le> k \<and> int k < conn_length c \<and> k < length xs
            \<and> xs ! k = Some q \<and> id_of h q = id_of h p \<and> INT_MIN < conn_num c
            \<and> c' = c\<lparr> conn_list := Some (xs[k := None]), conn_num := conn_num c - 1 \<rparr>)"
proof (induction c p h i rule: unregister_scan.induct)
  case (1 ctx conn h iterator)
  show ?case
  proof (cases "iterator < conn_length ctx")
    case False
    with "1.prems" show ?thesis by (subst (asm) unregister_scan.simps) auto
  next
    case lt: True
    from "1.prems"(1) lt obtain other where g: "slot_get (conn_list ctx) iterator = Inr (Some other)"
      by (subst (asm) unregister_scan.simps) (auto split: sum.splits option.splits)
    then obtain xs where xs: "conn_list ctx = Some xs" "nat iterator < length xs"
        "xs ! nat iterator = Some other"
      using "1.prems"(2) by (auto simp: slot_get_def split: option.splits if_splits)
    show ?thesis
    proof (cases "id_of h other = id_of h conn")
      case True
      with "1.prems" lt g xs
      have "INT_MIN < conn_num ctx \<and>
            c' = ctx\<lparr> conn_list := Some (xs[nat iterator := None]), conn_num := conn_num ctx - 1 \<rparr>"
        by (subst (asm) unregister_scan.simps) (auto simp: slot_set_def split: if_splits)
      with xs True lt "1.prems"(2) have
        "\<exists>xs k q. conn_list ctx = Some xs \<and> nat iterator \<le> k \<and> int k < conn_length ctx
            \<and> k < length xs \<and> xs ! k = Some q \<and> id_of h q = id_of h conn \<and> INT_MIN < conn_num ctx
            \<and> c' = ctx\<lparr> conn_list := Some (xs[k := None]), conn_num := conn_num ctx - 1 \<rparr>"
        by (intro exI[of _ xs] exI[of _ "nat iterator"] exI[of _ other]) simp
      then show ?thesis by blast
    next
      case False
      with "1.prems"(1) lt g have r: "unregister_scan ctx conn h (iterator + 1) = Inr c'"
        by (subst (asm) unregister_scan.simps) simp
      from "1.IH"[OF lt g refl False r] "1.prems"(2)
      consider
        (same) "c' = ctx"
          "\<forall>j. iterator + 1 \<le> j \<and> j < conn_length ctx \<longrightarrow>
             (\<exists>q. slot_get (conn_list ctx) j = Inr (Some q) \<and> id_of h q \<noteq> id_of h conn)"
      | (hit) ys k q where "conn_list ctx = Some ys" "nat (iterator + 1) \<le> k"
          "int k < conn_length ctx" "k < length ys" "ys ! k = Some q" "id_of h q = id_of h conn"
          "INT_MIN < conn_num ctx"
          "c' = ctx\<lparr> conn_list := Some (ys[k := None]), conn_num := conn_num ctx - 1 \<rparr>"
        by auto
      then show ?thesis
      proof cases
        case same
        have "\<forall>j. iterator \<le> j \<and> j < conn_length ctx \<longrightarrow>
               (\<exists>q. slot_get (conn_list ctx) j = Inr (Some q) \<and> id_of h q \<noteq> id_of h conn)"
        proof (intro allI impI)
          fix j assume j: "iterator \<le> j \<and> j < conn_length ctx"
          show "\<exists>q. slot_get (conn_list ctx) j = Inr (Some q) \<and> id_of h q \<noteq> id_of h conn"
          proof (cases "j = iterator")
            case True
            with g False show ?thesis by simp
          next
            case False
            with j have "iterator + 1 \<le> j \<and> j < conn_length ctx" by simp
            with same(2) show ?thesis by blast
          qed
        qed
        with same(1) show ?thesis by blast
      next
        case hit
        then have
          "\<exists>xs k q. conn_list ctx = Some xs \<and> nat iterator \<le> k \<and> int k < conn_length ctx
            \<and> k < length xs \<and> xs ! k = Some q \<and> id_of h q = id_of h conn \<and> INT_MIN < conn_num ctx
            \<and> c' = ctx\<lparr> conn_list := Some (xs[k := None]), conn_num := conn_num ctx - 1 \<rparr>"
          by (intro exI[of _ ys] exI[of _ k] exI[of _ q]) simp
        then show ?thesis by blast
      qed
    qed
  qed
qed

lemma unregister_scan_match:
  "conn_list c = Some xs \<Longrightarrow> conn_length c = int (length xs) \<Longrightarrow> 0 \<le> i
     \<Longrightarrow> nat i \<le> k \<Longrightarrow> k < length xs \<Longrightarrow> xs ! k = Some q \<Longrightarrow> id_of h q = id_of h p
     \<Longrightarrow> (\<And>j. nat i \<le> j \<Longrightarrow> j < k \<Longrightarrow> \<exists>r. xs ! j = Some r \<and> id_of h r \<noteq> id_of h p)
     \<Longrightarrow> INT_MIN < conn_num c
     \<Longrightarrow> unregister_scan c p h i =
           Inr (c\<lparr> conn_list := Some (xs[k := None]), conn_num := conn_num c - 1 \<rparr>)"
proof (induction c p h i rule: unregister_scan.induct)
  case (1 ctx conn h iterator)
  from "1.prems" have lt: "iterator < conn_length ctx" by simp
  show ?case
  proof (cases "nat iterator = k")
    case True
    with "1.prems" have g: "slot_get (conn_list ctx) iterator = Inr (Some q)"
      by (auto simp: slot_get_def)
    from True "1.prems" have s: "slot_set (conn_list ctx) iterator None = Inr (xs[k := None])"
      by (auto simp: slot_set_def)
    from lt g s "1.prems"(7,9) show ?thesis by (subst unregister_scan.simps) simp
  next
    case False
    with "1.prems" obtain r where r: "xs ! nat iterator = Some r" "id_of h r \<noteq> id_of h conn"
      by (metis le_neq_implies_less order_refl)
    with lt "1.prems" have g: "slot_get (conn_list ctx) iterator = Inr (Some r)"
      by (simp add: slot_get_def)
    have "unregister_scan ctx conn h (iterator + 1) =
            Inr (ctx\<lparr> conn_list := Some (xs[k := None]), conn_num := conn_num ctx - 1 \<rparr>)"
      using "1.prems" False by (intro "1.IH"[OF lt g refl r(2)]) auto
    with lt g r(2) show ?thesis by (subst unregister_scan.simps) simp
  qed
qed

lemma unregister_scan_no_match:
  "conn_list c = Some xs \<Longrightarrow> conn_length c = int (length xs) \<Longrightarrow> 0 \<le> i
     \<Longrightarrow> (\<And>j. nat i \<le> j \<Longrightarrow> j < length xs \<Longrightarrow> \<exists>r. xs ! j = Some r \<and> id_of h r \<noteq> id_of h p)
     \<Longrightarrow> unregister_scan c p h i = Inr c"
proof (induction c p h i rule: unregister_scan.induct)
  case (1 ctx conn h iterator)
  show ?case
  proof (cases "iterator < conn_length ctx")
    case False
    then show ?thesis by (subst unregister_scan.simps) simp
  next
    case lt: True
    with "1.prems" obtain r where r: "xs ! nat iterator = Some r" "id_of h r \<noteq> id_of h conn"
      by (metis nat_less_iff order_refl)
    with lt "1.prems" have g: "slot_get (conn_list ctx) iterator = Inr (Some r)"
      by (simp add: slot_get_def)
    have "unregister_scan ctx conn h (iterator + 1) = Inr ctx"
      using "1.prems" by (intro "1.IH"[OF lt g refl r(2)]) auto
    with lt g r(2) show ?thesis by (subst unregister_scan.simps) simp
  qed
qed

lemma unregister_scan_null_cell:
  "conn_list c = Some xs \<Longrightarrow> conn_length c = int (length xs) \<Longrightarrow> 0 \<le> i
     \<Longrightarrow> nat i \<le> k \<Longrightarrow> k < length xs \<Longrightarrow> xs ! k = None
     \<Longrightarrow> (\<And>j. nat i \<le> j \<Longrightarrow> j < k \<Longrightarrow> \<exists>r. xs ! j = Some r \<and> id_of h r \<noteq> id_of h p)
     \<Longrightarrow> unregister_scan c p h i = Inl NullDeref"
proof (induction c p h i rule: unregister_scan.induct)
  case (1 ctx conn h iterator)
  from "1.prems" have lt: "iterator < conn_length ctx" by simp
  show ?case
  proof (cases "nat iterator = k")
    case True
    with "1.prems" have g: "slot_get (conn_list ctx) iterator = Inr None"
      by (auto simp: slot_get_def)
    from lt g show ?thesis by (subst unregister_scan.simps) simp
  next
    case False
    with "1.prems" obtain r where r: "xs ! nat iterator = Some r" "id_of h r \<noteq> id_of h conn"
      by (metis le_neq_implies_less order_refl)
    with lt "1.prems" have g: "slot_get (conn_list ctx) iterator = Inr (Some r)"
      by (simp add: slot_get_def)
    have "unregister_scan ctx conn h (iterator + 1) = Inl NullDeref"
      using "1.prems" False by (intro "1.IH"[OF lt g refl r(2)]) auto
    with lt g r(2) show ?thesis by (subst unregister_scan.simps) simp
  qed
qed

section \<open>nopoll_ctx_foreach_conn and the spec's \<open>for_each\<close>\<close>

lemma foreach_loop_quiet:
  "conn_list c = Some xs \<Longrightarrow> conn_length c = int (length xs) \<Longrightarrow> 0 \<le> i
     \<Longrightarrow> foreach_loop (quiet g) c h u calls i =
           (case visit g c u (map the (filter (\<lambda>s. s \<noteq> None) (drop (nat i) xs))) of
              (r, u', called) \<Rightarrow> Some (Inr (r, Some c, h, u', calls @ called)))"
proof (induction "nat (conn_length c - i)" arbitrary: i u calls)
  case 0
  then have "\<not> i < conn_length c" by simp
  with "0.prems" show ?case by (subst foreach_loop.simps) simp
next
  case (Suc n)
  then have lt: "i < conn_length c" by simp
  with Suc.prems have nl: "nat i < length xs" by simp
  have d: "drop (nat i) xs = xs ! nat i # drop (nat (i + 1)) xs"
    using nl Suc.prems(3) by (simp add: Cons_nth_drop_Suc nat_add_distrib)
  from lt Suc.prems have g: "slot_get (conn_list c) i = Inr (xs ! nat i)"
    by (simp add: slot_get_def)
  have m: "n = nat (conn_length c - (i + 1))" using Suc.hyps(2) by simp
  have i1: "0 \<le> i + 1" using Suc.prems(3) by simp
  note ih = Suc.hyps(1)[OF m Suc.prems(1) Suc.prems(2) i1]
  show ?case
  proof (cases "xs ! nat i")
    case None
    with lt g d ih[of u calls] show ?thesis by (subst foreach_loop.simps) simp
  next
    case (Some p)
    obtain stop u1 where f: "g c p u = (stop, u1)" by (cases "g c p u")
    show ?thesis
    proof (cases stop)
      case True
      with lt g Some d f show ?thesis by (subst foreach_loop.simps) (simp add: quiet_def)
    next
      case False
      with lt g Some d f ih[of u1 "calls @ [p]"] show ?thesis
        by (subst foreach_loop.simps) (simp add: quiet_def split: prod.splits)
    qed
  qed
qed

lemma foreach_quiet_visit:
  assumes ok: "registry_ok c"
  shows "nopoll_ctx_foreach_conn (Some c) (Some (quiet g)) u h =
           (case visit g c u (live c) of (r, u', called) \<Rightarrow> Some (Inr (r, Some c, h, u', called)))"
  using ok
proof (cases rule: registry_ok_cases)
  case 1
  then show ?thesis
    by (simp add: nopoll_ctx_foreach_conn_def live_def) (subst foreach_loop.simps, simp)
next
  case (2 xs)
  from foreach_loop_quiet[OF 2(1) 2(2), of 0 g h u "[]"] 2(3) show ?thesis
    by (simp add: nopoll_ctx_foreach_conn_def live_def split: prod.splits)
qed

lemma visit_called:
  "visit f c u ps = (r, u', called) \<Longrightarrow>
     (\<exists>rest. ps = called @ rest) \<and>
     (r = None \<longrightarrow> called = ps) \<and>
     (\<forall>p. r = Some p \<longrightarrow> called \<noteq> [] \<and> last called = p)"
proof (induction ps arbitrary: u r u' called)
  case Nil
  then show ?case by simp
next
  case (Cons p ps)
  obtain stop u1 where f: "f c p u = (stop, u1)" by (cases "f c p u")
  show ?case
  proof (cases stop)
    case True
    with Cons.prems f show ?thesis by auto
  next
    case False
    obtain r1 u2 called1 where v: "visit f c u1 ps = (r1, u2, called1)"
      by (cases "visit f c u1 ps") auto
    with False f Cons.prems have e: "r = r1" "u' = u2" "called = p # called1" by auto
    from Cons.IH[OF v] e show ?thesis by auto
  qed
qed

text \<open>A handler that leaves \<open>user_data\<close> alone is a predicate on connections.\<close>

lemma visit_pure:
  "visit (\<lambda>ctx p u. (P p, u)) c u ps =
     (List.find P ps, u, takeWhile (\<lambda>p. \<not> P p) ps @ (case List.find P ps of None \<Rightarrow> [] | Some p \<Rightarrow> [p]))"
  by (induction ps) (auto split: option.splits)

text \<open>
  On a context whose block has \<open>conn_length\<close> cells and with a quiet handler,
  \<open>nopoll_ctx_foreach_conn\<close> returns, and it is the spec's \<open>for_each\<close>: the connections it
  called the handler on are an initial part of the live ones, in slot order; a result of
  NULL means it called the handler on every live connection, once each; a result \<open>p\<close>
  means the last call was on \<open>p\<close>. For a handler that is a predicate \<open>P\<close> on the
  connection, the result is the first live connection that satisfies \<open>P\<close>.
\<close>

lemma foreach_quiet_in_order:
  assumes "registry_ok c"
  shows "(\<exists>r u' called.
            nopoll_ctx_foreach_conn (Some c) (Some (quiet g)) user_data h =
              Some (Inr (r, Some c, h, u', called))
            \<and> visit g c user_data (live c) = (r, u', called)
            \<and> (\<exists>rest. live c = called @ rest)
            \<and> (r = None \<longrightarrow> called = live c)
            \<and> (\<forall>p. r = Some p \<longrightarrow> called \<noteq> [] \<and> last called = p))
         \<and> nopoll_ctx_foreach_conn (Some c) (Some (quiet (\<lambda>ctx p u. (P p, u)))) user_data h =
             Some (Inr (List.find P (live c), Some c, h, user_data,
                        takeWhile (\<lambda>p. \<not> P p) (live c)
                          @ (case List.find P (live c) of None \<Rightarrow> [] | Some p \<Rightarrow> [p])))"
proof -
  obtain r u' called where v: "visit g c user_data (live c) = (r, u', called)"
    by (cases "visit g c user_data (live c)") auto
  have 1: "nopoll_ctx_foreach_conn (Some c) (Some (quiet g)) user_data h =
             Some (Inr (r, Some c, h, u', called))"
    using foreach_quiet_visit[OF assms, of g user_data h] v by simp
  have 2: "nopoll_ctx_foreach_conn (Some c) (Some (quiet (\<lambda>ctx p u. (P p, u)))) user_data h =
             Some (Inr (List.find P (live c), Some c, h, user_data,
                        takeWhile (\<lambda>p. \<not> P p) (live c)
                          @ (case List.find P (live c) of None \<Rightarrow> [] | Some p \<Rightarrow> [p])))"
    using foreach_quiet_visit[OF assms, of "\<lambda>ctx p u. (P p, u)" user_data h]
    by (simp add: visit_pure)
  from visit_called[OF v] 1 v 2 show ?thesis by blast
qed

section \<open>The live count along runs in which no allocation fails\<close>

lemma occupied_set_some:
  "k < length xs \<Longrightarrow> xs ! k = None \<Longrightarrow>
     length (filter (\<lambda>s. s \<noteq> None) (xs[k := Some p])) = Suc (length (filter (\<lambda>s. s \<noteq> None) xs))"
  by (induction xs arbitrary: k) (auto simp: nth_Cons split: nat.splits)

lemma occupied_set_none:
  "k < length xs \<Longrightarrow> xs ! k = Some q \<Longrightarrow>
     Suc (length (filter (\<lambda>s. s \<noteq> None) (xs[k := None]))) = length (filter (\<lambda>s. s \<noteq> None) xs)"
  by (induction xs arbitrary: k) (auto simp: nth_Cons split: nat.splits)

lemma placed_keeps_count:
  assumes ok: "registry_ok c" and cnt: "counted c"
    and pl: "register_place c p 0 = Inr (Some c')"
  shows "registry_ok c' \<and> counted c' \<and> conn_length c' = conn_length c \<and> conn_id c' = conn_id c"
proof -
  from register_place_placed[OF pl] obtain xs k where
    f: "conn_list c = Some xs" "int k < conn_length c" "k < length xs" "xs ! k = None"
       "c' = c\<lparr> conn_list := Some (xs[k := Some p]), conn_num := conn_num c + 1 \<rparr>"
    by auto
  from ok f(1) have len: "conn_length c = int (length xs)" by (simp add: registry_ok_def)
  have "registry_ok c'" using f len by (simp add: registry_ok_def)
  moreover have "counted c'"
    using cnt f len occupied_set_some[OF f(3) f(4), of p]
    by (simp add: counted_def live_def cells_def)
  ultimately show ?thesis using f by simp
qed

lemma register_keeps_count:
  assumes ok: "registry_ok c" and cnt: "counted c"
    and r: "nopoll_ctx_register_conn (ReallocBlock junk) (Some c) conn h = Inr (ctx', h')"
  shows "\<exists>c'. ctx' = Some c' \<and> registry_ok c' \<and> counted c'"
proof (cases conn)
  case None
  with r ok cnt show ?thesis by (auto simp: nopoll_ctx_register_conn.simps)
next
  case (Some p)
  let ?c1 = "c\<lparr> conn_id := next_id (conn_id c) \<rparr>"
  have ok1: "registry_ok ?c1" "counted ?c1"
    using ok cnt by (simp_all add: registry_ok_def counted_def live_def cells_def split: option.splits)
  from r[unfolded Some] show ?thesis
  proof (cases rule: register_returns)
    case (direct c2)
    from placed_keeps_count[OF ok1 direct(1)] direct(2) show ?thesis by simp
  next
    case failed
    then show ?thesis by (simp add: nopoll_realloc_def Let_def)
  next
    case (grown xs xs' c2)
    let ?n = "length (cells c)"
    let ?c5 = "c\<lparr> conn_id := next_id (next_id (conn_id c)), conn_length := conn_length c + 10,
                   conn_list := Some xs' \<rparr>"
    have n: "conn_length c = int ?n" by (rule registry_ok_cells[OF ok])
    from grown(3) nopoll_realloc_block[OF ok, of junk]
    have xs: "xs = cells c @ map junk [?n ..< ?n + 10]" by simp
    have "register_clear xs (conn_length c) (conn_length c + 10) =
            Inr (take (nat (conn_length c)) xs
                 @ replicate (nat (conn_length c + 10 - conn_length c)) None
                 @ drop (nat (conn_length c + 10)) xs)"
      by (rule register_clear_block) (simp_all add: n xs)
    with grown(4) have xs': "xs' = cells c @ replicate 10 None" by (simp add: n xs)
    have ok5: "registry_ok ?c5" by (simp add: registry_ok_def xs' n)
    have "live ?c5 = live c" by (simp add: live_def cells_def xs' n)
    with cnt have cnt5: "counted ?c5" by (simp add: counted_def)
    from placed_keeps_count[OF ok5 cnt5 grown(5)] grown(6) show ?thesis by simp
  qed
qed

lemma unregister_keeps_count:
  assumes ok: "registry_ok c" and cnt: "counted c"
    and r: "nopoll_ctx_unregister_conn (Some c) conn h = Inr ctx'"
  shows "\<exists>c'. ctx' = Some c' \<and> registry_ok c' \<and> counted c'"
proof (cases conn)
  case None
  with r ok cnt show ?thesis by (auto simp: nopoll_ctx_unregister_conn_def)
next
  case (Some p)
  with r obtain c' where c': "ctx' = Some c'" "unregister_scan c p h 0 = Inr c'"
    by (auto simp: nopoll_ctx_unregister_conn_def split: sum.splits)
  from unregister_scan_returns[OF c'(2)]
  consider (same) "c' = c"
    | (hit) xs k q where "conn_list c = Some xs" "int k < conn_length c" "k < length xs"
        "xs ! k = Some q" "c' = c\<lparr> conn_list := Some (xs[k := None]), conn_num := conn_num c - 1 \<rparr>"
    by auto
  then show ?thesis
  proof cases
    case same
    with c' ok cnt show ?thesis by simp
  next
    case hit
    from ok hit(1) have len: "conn_length c = int (length xs)" by (simp add: registry_ok_def)
    have "registry_ok c'" using hit len by (simp add: registry_ok_def)
    moreover have "counted c'"
      using cnt hit len occupied_set_none[OF hit(3) hit(4)]
      by (simp add: counted_def live_def cells_def)
    ultimately show ?thesis using c' by simp
  qed
qed

lemma run_freed: "run ks (None, h) = Inr s \<Longrightarrow> ks = [] \<and> s = (None, h)"
  by (cases ks) auto

lemma step_keeps_count:
  assumes "alloc_succeeds k" and "registry_ok c" and "counted c"
    and "step k (Some c, h) = Inr (Some c', h')"
  shows "registry_ok c' \<and> counted c'"
proof (cases k)
  case Ref
  with assms show ?thesis
    by (auto simp: nopoll_ctx_ref_def registry_ok_def counted_def live_def cells_def
             split: if_splits option.splits)
next
  case Unref
  with assms show ?thesis
    by (auto simp: nopoll_ctx_unref_def registry_ok_def counted_def live_def cells_def Let_def
             split: if_splits option.splits)
next
  case (Register answer conn)
  show ?thesis
  proof (cases answer)
    case ReallocNull
    with Register assms(1) show ?thesis by simp
  next
    case (ReallocBlock junk)
    with Register assms register_keeps_count[of c junk conn h "Some c'" h'] show ?thesis by simp
  qed
next
  case (Unregister conn)
  with assms obtain ctx' where "nopoll_ctx_unregister_conn (Some c) conn h = Inr ctx'" "ctx' = Some c'"
    by (auto split: sum.splits)
  with assms unregister_keeps_count[of c conn h ctx'] show ?thesis by simp
qed

lemma run_keeps_count:
  "list_all alloc_succeeds ks \<Longrightarrow> registry_ok c \<Longrightarrow> counted c
     \<Longrightarrow> run ks (Some c, h) = Inr (Some c', h')
     \<Longrightarrow> registry_ok c' \<and> counted c' \<and> nopoll_ctx_conns (Some c') = int (length (live c'))"
proof (induction ks arbitrary: c h)
  case Nil
  then show ?case by (simp add: nopoll_ctx_conns_def counted_def)
next
  case (Cons k ks)
  from Cons.prems(4) obtain s where s: "step k (Some c, h) = Inr s" "run ks s = Inr (Some c', h')"
    by (auto split: sum.splits)
  obtain ctx1 h1 where s1: "s = (ctx1, h1)" by (cases s)
  show ?case
  proof (cases ctx1)
    case None
    with s s1 run_freed[of ks h1 "(Some c', h')"] show ?thesis by simp
  next
    case (Some c1)
    from step_keeps_count[OF _ Cons.prems(2,3) s(1)[unfolded s1 Some]] Cons.prems(1)
    have "registry_ok c1 \<and> counted c1" by simp
    with Cons.IH[of c1 h1] Cons.prems(1) s(2) s1 Some show ?thesis by simp
  qed
qed

lemma run_from_fresh_keeps_count:
  assumes "list_all alloc_succeeds ks"
    and "run ks (nopoll_ctx_new True, h) = Inr (Some c', h')"
  shows "registry_ok c' \<and> counted c' \<and> nopoll_ctx_conns (Some c') = int (length (live c'))"
proof -
  have f: "nopoll_ctx_new True = Some fresh_ctx"
    by (simp add: nopoll_ctx_new_def nopoll_new_def fresh_ctx_def)
  have "registry_ok fresh_ctx" "counted fresh_ctx"
    by (simp_all add: fresh_ctx_def registry_ok_def counted_def live_def cells_def)
  from run_keeps_count[OF assms(1) this assms(2)[unfolded f]] show ?thesis .
qed

section \<open>The capacity and the id counter along a run\<close>

text \<open>
  A call that returns on a connection has raised the counter once and given the
  connection the value the counter had, or (after growth) has raised it twice and given
  the connection the value in between.
\<close>

lemma register_some:
  assumes "nopoll_ctx_register_conn answer (Some c) conn h = Inr (ctx', h')"
  shows "\<exists>c'. ctx' = Some c'
           \<and> (conn_length c' = conn_length c \<or> conn_length c' = conn_length c + 10)
           \<and> (conn = None \<longrightarrow> conn_id c' = conn_id c)
           \<and> (\<forall>p. conn = Some p \<longrightarrow>
                 (id_of h' p = conn_id c \<and> conn_id c' = next_id (conn_id c))
                 \<or> (id_of h' p = next_id (conn_id c)
                     \<and> conn_id c' = next_id (next_id (conn_id c))))"
proof (cases conn)
  case None
  with assms show ?thesis by (auto simp: nopoll_ctx_register_conn.simps)
next
  case (Some p)
  from assms[unfolded Some] show ?thesis
  proof (cases rule: register_returns)
    case (direct c2)
    from register_place_placed[OF direct(1)] direct(2) Some show ?thesis by auto
  next
    case failed
    with Some show ?thesis by auto
  next
    case (grown xs xs' c2)
    from register_place_placed[OF grown(5)] grown(6) Some show ?thesis by auto
  qed
qed

lemma unregister_some:
  assumes "nopoll_ctx_unregister_conn (Some c) conn h = Inr ctx'"
  shows "\<exists>c'. ctx' = Some c' \<and> conn_id c' = conn_id c \<and> conn_length c' = conn_length c"
proof (cases conn)
  case None
  with assms show ?thesis by (auto simp: nopoll_ctx_unregister_conn_def)
next
  case (Some p)
  with assms obtain c' where c': "ctx' = Some c'" "unregister_scan c p h 0 = Inr c'"
    by (auto simp: nopoll_ctx_unregister_conn_def split: sum.splits)
  from unregister_scan_returns[OF c'(2)] c'(1) show ?thesis by auto
qed

lemma step_some:
  assumes "step k (Some c, h) = Inr (Some c', h')"
  shows "conn_length c' = conn_length c \<or> conn_length c' = conn_length c + 10"
proof (cases k)
  case Ref
  with assms show ?thesis by (auto simp: nopoll_ctx_ref_def split: if_splits)
next
  case Unref
  with assms show ?thesis by (auto simp: nopoll_ctx_unref_def Let_def split: if_splits)
next
  case (Register answer conn)
  with assms register_some[of answer c conn h "Some c'" h'] show ?thesis by auto
next
  case (Unregister conn)
  with assms obtain ctx' where "nopoll_ctx_unregister_conn (Some c) conn h = Inr ctx'" "ctx' = Some c'"
    by (auto split: sum.splits)
  with unregister_some[of c conn h ctx'] show ?thesis by auto
qed

lemma run_some:
  "run ks (Some c, h) = Inr (Some c', h') \<Longrightarrow> \<exists>n. conn_length c' = conn_length c + 10 * int n"
proof (induction ks arbitrary: c h)
  case Nil
  then show ?case by simp
next
  case (Cons k ks)
  from Cons.prems obtain s where s: "step k (Some c, h) = Inr s" "run ks s = Inr (Some c', h')"
    by (auto split: sum.splits)
  obtain ctx1 h1 where s1: "s = (ctx1, h1)" by (cases s)
  show ?case
  proof (cases ctx1)
    case None
    with s s1 run_freed[of ks h1 "(Some c', h')"] show ?thesis by simp
  next
    case (Some c1)
    from step_some[OF s(1)[unfolded s1 Some]]
    have b: "conn_length c1 = conn_length c \<or> conn_length c1 = conn_length c + 10" .
    from Cons.IH[OF s(2)[unfolded s1 Some]] obtain n where
      c: "conn_length c' = conn_length c1 + 10 * int n" by auto
    from b show ?thesis
    proof
      assume "conn_length c1 = conn_length c"
      with c show ?thesis by auto
    next
      assume "conn_length c1 = conn_length c + 10"
      with c have "conn_length c' = conn_length c + 10 * int (Suc n)" by simp
      then show ?thesis by blast
    qed
  qed
qed






section \<open>When nopoll_ctx_unregister_conn returns, and when it reads through NULL\<close>

lemma unregister_unknown_on_full_table:
  assumes ok: "registry_ok c"
    and full: "\<forall>s \<in> set (cells c). \<exists>r. s = Some r \<and> id_of h r \<noteq> id_of h p"
  shows "nopoll_ctx_unregister_conn (Some c) (Some p) h = Inr (Some c)"
  using ok
proof (cases rule: registry_ok_cases)
  case 1
  then have "unregister_scan c p h 0 = Inr c" by (subst unregister_scan.simps) simp
  then show ?thesis by (simp add: nopoll_ctx_unregister_conn_def)
next
  case (2 xs)
  have "unregister_scan c p h 0 = Inr c"
  proof (rule unregister_scan_no_match[OF 2(1) 2(2)])
    fix j assume "j < length xs"
    then have "xs ! j \<in> set (cells c)" using 2(3) by simp
    with full show "\<exists>r. xs ! j = Some r \<and> id_of h r \<noteq> id_of h p" by blast
  qed simp
  then show ?thesis by (simp add: nopoll_ctx_unregister_conn_def)
qed

lemma unregister_first_match:
  assumes ok: "registry_ok c" and xs: "conn_list c = Some xs"
    and k: "k < length xs" "xs ! k = Some q" "id_of h q = id_of h p"
    and low: "\<And>j. j < k \<Longrightarrow> \<exists>r. xs ! j = Some r \<and> id_of h r \<noteq> id_of h p"
    and num: "INT_MIN < conn_num c"
  shows "nopoll_ctx_unregister_conn (Some c) (Some p) h =
           Inr (Some (c\<lparr> conn_list := Some (xs[k := None]), conn_num := conn_num c - 1 \<rparr>))"
proof -
  have len: "conn_length c = int (length xs)" using ok xs by (simp add: registry_ok_def)
  have "unregister_scan c p h 0 =
          Inr (c\<lparr> conn_list := Some (xs[k := None]), conn_num := conn_num c - 1 \<rparr>)"
    by (rule unregister_scan_match[OF xs len _ _ k(1) k(2) k(3) low num]) simp_all
  then show ?thesis by (simp add: nopoll_ctx_unregister_conn_def)
qed

lemma unregister_null_cell_first:
  assumes ok: "registry_ok c" and xs: "conn_list c = Some xs"
    and k: "k < length xs" "xs ! k = None"
    and low: "\<And>j. j < k \<Longrightarrow> \<exists>r. xs ! j = Some r \<and> id_of h r \<noteq> id_of h p"
  shows "nopoll_ctx_unregister_conn (Some c) (Some p) h = Inl NullDeref"
proof -
  have len: "conn_length c = int (length xs)" using ok xs by (simp add: registry_ok_def)
  have "unregister_scan c p h 0 = Inl NullDeref"
    by (rule unregister_scan_null_cell[OF xs len _ _ k(1) k(2) low]) simp_all
  then show ?thesis by (simp add: nopoll_ctx_unregister_conn_def)
qed

section \<open>Concrete runs\<close>

lemma run_append:
  "run (ks @ ks') s = (case run ks s of Inl e \<Rightarrow> Inl e | Inr s' \<Rightarrow> run ks' s')"
  by (induction ks arbitrary: s) (auto split: sum.splits)


lemmas evaluate =
  nopoll_ctx_register_conn.simps register_place.simps register_clear.simps nopoll_realloc_def
  nopoll_ctx_unregister_conn_def unregister_scan.simps slot_get_def slot_set_def next_id_def
  INT_MAX_def INT_MIN_def fresh_ctx_def heap0_def dirty_def Let_def upt_rec numeral_eq_Suc

lemma nopoll_ctx_new_fresh: "nopoll_ctx_new True = Some fresh_ctx"
  by (simp add: nopoll_ctx_new_def nopoll_new_def fresh_ctx_def)

lemma ten_registered:
  "run (map (\<lambda>i. Register dirty (Some i)) [0, 1, 2, 3, 4, 5, 6, 7, 8, 9]) (Some fresh_ctx, heap0) =
     Inr (Some full10, heap10)"
  by (simp add: evaluate full10_def heap10_def)

lemma unregister_even_indexes_descending:
  "run (map (\<lambda>i. Register dirty (Some i)) [0, 1, 2, 3, 4, 5, 6, 7, 8, 9]
        @ map (\<lambda>i. Unregister (Some i)) [8, 6, 4, 2, 0]) (Some fresh_ctx, heap0) =
     Inr (Some odd5, heap10)
   \<and> nopoll_ctx_conns (Some odd5) = 5
   \<and> nopoll_ctx_foreach_conn (Some odd5) (Some (quiet (\<lambda>ctx p u. (False, u)))) () heap10 =
       Some (Inr (None, Some odd5, heap10, (), [1, 3, 5, 7, 9]))"
proof -
  have "run (map (\<lambda>i. Unregister (Some i)) [8, 6, 4, 2, 0]) (Some full10, heap10) =
          Inr (Some odd5, heap10)"
    by (simp add: evaluate full10_def heap10_def odd5_def)
  then have a: "run (map (\<lambda>i. Register dirty (Some i)) [0, 1, 2, 3, 4, 5, 6, 7, 8, 9]
        @ map (\<lambda>i. Unregister (Some i)) [8, 6, 4, 2, 0]) (Some fresh_ctx, heap0) =
     Inr (Some odd5, heap10)"
    by (simp only: run_append ten_registered sum.case)
  have ok: "registry_ok odd5" by (simp add: odd5_def full10_def fresh_ctx_def registry_ok_def)
  have l: "live odd5 = [1, 3, 5, 7, 9]"
    by (simp add: odd5_def full10_def fresh_ctx_def live_def cells_def)
  have b: "nopoll_ctx_conns (Some odd5) = 5" by (simp add: nopoll_ctx_conns_def odd5_def)
  have c: "nopoll_ctx_foreach_conn (Some odd5) (Some (quiet (\<lambda>ctx p u. (False, u)))) () heap10 =
       Some (Inr (None, Some odd5, heap10, (), [1, 3, 5, 7, 9]))"
    using foreach_quiet_visit[OF ok, of "\<lambda>ctx p u. (False, u)" "()" heap10] by (simp add: l)
  from a b c show ?thesis by simp
qed

text \<open>
  A handler that unregisters the connection it is called on and answers true: the loop
  reads the cell again after the call, finds it NULL, and returns NULL, although the
  handler stopped the loop on connection 1.
\<close>

lemma foreach_handler_unregisters:
  "nopoll_ctx_foreach_conn (Some grown1) (Some unregister_and_stop) ()
       (heap0\<lparr> id_of := (id_of heap0)(1 := 2) \<rparr>) =
     Some (Inr (None, Some (grown1\<lparr> conn_num := 0, conn_list := Some (replicate 10 None) \<rparr>),
                heap0\<lparr> id_of := (id_of heap0)(1 := 2) \<rparr>, (), [1]))"
  unfolding nopoll_ctx_foreach_conn_def
  by (subst foreach_loop.simps) (simp add: evaluate grown1_def unregister_and_stop_def)






section \<open>The claims\<close>

text \<open>
  C1. The claim: unregistering a connection whose id matches no registered connection
  leaves the registry as it was, and unregistering one whose id matches turns that slot
  into a tombstone and lowers the live count by one. The loop of
  \<open>nopoll_ctx_unregister_conn\<close> reads \<open>conn_list[iterator]->id\<close> without testing the cell,
  so it returns normally only if it meets no NULL cell before the match or the end of the
  table (\<open>unregister_unknown_on_full_table\<close>, \<open>unregister_first_match\<close>); a NULL cell met
  first is a read through NULL (\<open>unregister_null_cell_first\<close>). The theorem runs the code
  on a fresh context: after one registration, unregistering a connection that was never
  registered reads through NULL at cell 1; after two registrations and the removal of the
  first connection, unregistering the second one reads through NULL at cell 0.
\<close>

theorem unregister_reads_through_null_cell:
  "run [Register dirty (Some 1), Unregister (Some 7)] (Some fresh_ctx, heap0) = Inl NullDeref
   \<and> run [Register dirty (Some 1), Register dirty (Some 2), Unregister (Some 1), Unregister (Some 2)]
        (Some fresh_ctx, heap0) = Inl NullDeref"
  by (simp add: evaluate)

text \<open>
  C2. The claim: after ten registrations on a fresh context and the removal of the five
  connections with even index, the handler of \<open>for_each\<close> is called on the five that are
  left, in slot order, and the count is 5. The theorem runs the code with the removals in
  increasing index order: connection 0 leaves cell 0 NULL, and the removal of connection 2
  reads through that cell. Only the removals in decreasing order of index go through
  (\<open>unregister_even_indexes_descending\<close>).
\<close>

theorem unregister_even_indexes_crashes:
  "run (map (\<lambda>i. Register dirty (Some i)) [0, 1, 2, 3, 4, 5, 6, 7, 8, 9] @ map (\<lambda>i. Unregister (Some i)) [0, 2, 4, 6, 8])
     (Some fresh_ctx, heap0) = Inl NullDeref"
  by (simp add: run_append ten_registered) (simp add: evaluate full10_def heap10_def)

text \<open>
  C3. The claim: every successful registration gives the connection the current value of
  the id counter, advances the counter by exactly one, and puts the connection in the
  lowest NULL cell, raising the live count by one. That is what the code does when the
  table has a NULL cell (\<open>register_direct\<close>). When the table must grow, the function calls
  itself after growing, its head runs a second time, and the connection ends with the
  counter's value plus one while the counter has advanced by two (\<open>register_grow\<close>). The
  theorem runs the first registration on a fresh context, whose counter is 1: the
  connection gets id 2 and the counter becomes 3.
\<close>

theorem first_registration_skips_an_id:
  "conn_id fresh_ctx = 1
   \<and> nopoll_ctx_register_conn dirty (nopoll_ctx_new True) (Some 1) heap0 =
       Inr (Some grown1, heap0\<lparr> id_of := (id_of heap0)(1 := 2) \<rparr>)
   \<and> id_of (heap0\<lparr> id_of := (id_of heap0)(1 := 2) \<rparr>) 1 = 2
   \<and> conn_id grown1 = 3"
  by (simp add: nopoll_ctx_new_fresh) (simp add: evaluate grown1_def)

text \<open>
  C4. When \<open>nopoll_ctx_register_conn\<close> finds no NULL cell (the table is full, or it is the
  empty table of a fresh context) and the allocation succeeds, the capacity \<open>conn_length\<close>
  grows by exactly 10, all ten new cells are cleared whatever the allocator left in them,
  and the retry puts the connection in the first new cell with no further growth. And
  whatever the context, a call that returns changes \<open>conn_length\<close> by 0 or by exactly 10,
  so along every run of calls the capacity never decreases and differs from the start by
  a multiple of 10. (The only other write to \<open>conn_length\<close> is the 0 that
  \<open>nopoll_ctx_unref\<close> stores right before it frees the context.)
\<close>

theorem registry_grows_by_ten:
  "(registry_ok c \<and> None \<notin> set (cells c) \<and> conn_id c < INT_MAX - 1 \<and> conn_num c < INT_MAX
      \<and> conn_length c \<le> INT_MAX - 10 \<longrightarrow>
      nopoll_ctx_register_conn (ReallocBlock junk) (Some c) (Some p) h =
        Inr (Some (c\<lparr> conn_id := conn_id c + 2, conn_length := conn_length c + 10,
                       conn_num := conn_num c + 1,
                       conn_list := Some (cells c @ Some p # replicate 9 None) \<rparr>),
             h\<lparr> id_of := (id_of h)(p := conn_id c + 1) \<rparr>))
   \<and> (step k (Some c, h) = Inr (Some c', h') \<longrightarrow>
        conn_length c' = conn_length c \<or> conn_length c' = conn_length c + 10)
   \<and> (run ks (Some c, h) = Inr (Some c'', h'') \<longrightarrow>
        (\<exists>n. conn_length c'' = conn_length c + 10 * int n))"
  using register_grow[of c junk p h] step_some[of k c h c' h'] run_some[of ks c h c'' h'']
  by blast

theorem registry_grows_by_ten_witness:
  "registry_ok full10 \<and> None \<notin> set (cells full10)
   \<and> nopoll_ctx_register_conn dirty (Some full10) (Some 10) heap10 =
        Inr (Some grown11, heap10\<lparr> id_of := (id_of heap10)(10 := 13) \<rparr>)
   \<and> step (Register dirty (Some 10)) (Some full10, heap10) =
        Inr (Some grown11, heap10\<lparr> id_of := (id_of heap10)(10 := 13) \<rparr>)
   \<and> run [Register dirty (Some 10)] (Some full10, heap10) =
        Inr (Some grown11, heap10\<lparr> id_of := (id_of heap10)(10 := 13) \<rparr>)
   \<and> conn_length grown11 = conn_length full10 + 10
   \<and> (\<exists>n. conn_length grown11 = conn_length full10 + 10 * int n)
   \<and> registry_ok fresh_ctx \<and> None \<notin> set (cells fresh_ctx)
   \<and> nopoll_ctx_register_conn dirty (Some fresh_ctx) (Some 1) heap0 =
        Inr (Some grown1, heap0\<lparr> id_of := (id_of heap0)(1 := 2) \<rparr>)"
proof -
  let ?h = "heap10\<lparr> id_of := (id_of heap10)(10 := 13) \<rparr>"
  have a: "registry_ok full10" by (simp add: full10_def registry_ok_def)
  have b: "None \<notin> set (cells full10)" by (simp add: full10_def cells_def)
  have c: "conn_id full10 < INT_MAX - 1" "conn_num full10 < INT_MAX"
    "conn_length full10 \<le> INT_MAX - 10" "conn_id full10 = 12" "conn_num full10 = 10"
    "conn_length full10 = 10"
    by (simp_all add: full10_def INT_MAX_def)
  note t = registry_grows_by_ten[of full10 "\<lambda>i. Some (1000 + i)" 10 heap10
      "Register dirty (Some 10)" grown11 ?h "[Register dirty (Some 10)]" grown11 ?h]
  from t a b c
  have r: "nopoll_ctx_register_conn dirty (Some full10) (Some 10) heap10 = Inr (Some grown11, ?h)"
    by (simp add: dirty_def grown11_def)
  then have s: "step (Register dirty (Some 10)) (Some full10, heap10) = Inr (Some grown11, ?h)"
    and u: "run [Register dirty (Some 10)] (Some full10, heap10) = Inr (Some grown11, ?h)"
    by simp_all
  from t s u
  have "conn_length grown11 = conn_length full10 \<or> conn_length grown11 = conn_length full10 + 10"
    and "\<exists>n. conn_length grown11 = conn_length full10 + 10 * int n"
    by blast+
  moreover have "conn_length grown11 \<noteq> conn_length full10" by (simp add: grown11_def full10_def)
  moreover have a0: "registry_ok fresh_ctx" by (simp add: fresh_ctx_def registry_ok_def)
  moreover have b0: "None \<notin> set (cells fresh_ctx)" by (simp add: fresh_ctx_def cells_def)
  moreover have c0: "conn_id fresh_ctx < INT_MAX - 1" "conn_num fresh_ctx < INT_MAX"
    "conn_length fresh_ctx \<le> INT_MAX - 10" "cells fresh_ctx = []" "conn_id fresh_ctx = 1"
    "conn_num fresh_ctx = 0" "conn_length fresh_ctx = 0"
    by (simp_all add: fresh_ctx_def INT_MAX_def cells_def)
  moreover from registry_grows_by_ten[of fresh_ctx "\<lambda>i. Some (1000 + i)" 1 heap0] a0 b0 c0
  have "nopoll_ctx_register_conn dirty (Some fresh_ctx) (Some 1) heap0 =
          Inr (Some grown1, heap0\<lparr> id_of := (id_of heap0)(1 := 2) \<rparr>)"
    by (simp add: dirty_def grown1_def)
  ultimately show ?thesis using a b r s u by simp
qed

text \<open>
  C5. If the allocation made to grow the table fails, \<open>nopoll_ctx_register_conn\<close> returns
  (it does not crash), the failure is logged, the connection is in no cell and the live
  count \<open>conn_num\<close> is unchanged. (On that path \<open>conn_list\<close> is left NULL, so no cell at all
  is left.)
\<close>

theorem register_growth_allocation_failure:
  assumes "registry_ok c" and "None \<notin> set (cells c)"
    and "conn_id c < INT_MAX" and "conn_length c \<le> INT_MAX - 10"
  shows "\<exists>c' h'. nopoll_ctx_register_conn ReallocNull (Some c) (Some p) h = Inr (Some c', h')
           \<and> conn_list c' = None \<and> live c' = [] \<and> conn_num c' = conn_num c
           \<and> logged h' = logged h @
                 [(NOPOLL_LEVEL_CRITICAL,
                   ''General connection registration error, memory acquisition failed..'')]"
  using register_alloc_fails[OF assms, of p h] by (simp add: live_def cells_def)

theorem register_growth_allocation_failure_witness:
  "registry_ok full10 \<and> None \<notin> set (cells full10) \<and> live full10 = [0, 1, 2, 3, 4, 5, 6, 7, 8, 9]
   \<and> (\<exists>c' h'. nopoll_ctx_register_conn ReallocNull (Some full10) (Some 10) heap10 = Inr (Some c', h')
           \<and> conn_list c' = None \<and> live c' = [] \<and> conn_num c' = 10
           \<and> logged h' =
                 [(NOPOLL_LEVEL_CRITICAL,
                   ''General connection registration error, memory acquisition failed..'')])"
proof -
  have a: "registry_ok full10" by (simp add: full10_def registry_ok_def)
  have b: "None \<notin> set (cells full10)" by (auto simp: full10_def cells_def)
  have c: "conn_id full10 < INT_MAX" "conn_length full10 \<le> INT_MAX - 10"
    by (simp_all add: full10_def INT_MAX_def)
  have d: "live full10 = [0, 1, 2, 3, 4, 5, 6, 7, 8, 9]"
    by (simp add: live_def full10_def cells_def)
  have e: "conn_num full10 = 10" "logged heap10 = []"
    by (simp_all add: full10_def heap10_def heap0_def)
  from register_growth_allocation_failure[OF a b c, of 10 heap10] a b d e show ?thesis by simp
qed

text \<open>
  C6, as amended. \<open>nopoll_ctx_ref\<close> increments the reference count. \<open>nopoll_ctx_unref\<close>
  decrements it and frees the slot block and the context exactly when the count goes from
  1 to zero; on NULL it does nothing. On a context whose count is already zero it is not
  a no-op: the count becomes -1 and nothing is freed.
\<close>

theorem ref_unref_counts:
  "(refs c < INT_MAX \<longrightarrow> nopoll_ctx_ref (Some c) = Inr (True, Some (c\<lparr> refs := refs c + 1 \<rparr>)))
   \<and> nopoll_ctx_unref None = Inr (None, [])
   \<and> (INT_MIN < refs c \<longrightarrow>
        nopoll_ctx_unref (Some c) =
          (if refs c = 1
           then Inr (None, [FreedConnList (conn_list c),
                            FreedCtx (c\<lparr> refs := 0, conn_length := 0 \<rparr>)])
           else Inr (Some (c\<lparr> refs := refs c - 1 \<rparr>), [])))
   \<and> (refs c = 0 \<longrightarrow> nopoll_ctx_unref (Some c) = Inr (Some (c\<lparr> refs := - 1 \<rparr>), []))"
  by (simp add: nopoll_ctx_ref_def nopoll_ctx_unref_def INT_MIN_def Let_def)

theorem ref_unref_counts_witness:
  "nopoll_ctx_ref (Some fresh_ctx) = Inr (True, Some (fresh_ctx\<lparr> refs := 2 \<rparr>))
   \<and> nopoll_ctx_unref (Some (fresh_ctx\<lparr> refs := 2 \<rparr>)) = Inr (Some fresh_ctx, [])
   \<and> nopoll_ctx_unref (Some fresh_ctx) =
       Inr (None, [FreedConnList None, FreedCtx (fresh_ctx\<lparr> refs := 0 \<rparr>)])
   \<and> nopoll_ctx_unref (Some (fresh_ctx\<lparr> refs := 0 \<rparr>)) = Inr (Some (fresh_ctx\<lparr> refs := - 1 \<rparr>), [])"
  using ref_unref_counts[of fresh_ctx] ref_unref_counts[of "fresh_ctx\<lparr> refs := 2 \<rparr>"]
        ref_unref_counts[of "fresh_ctx\<lparr> refs := 0 \<rparr>"]
  by (simp add: fresh_ctx_def INT_MAX_def INT_MIN_def)

text \<open>
  C6 as the spec states it says that releasing a context whose count is already zero leaves
  it unchanged. On the fresh context with its count set to zero the code lowers the count
  to -1.
\<close>

theorem unref_at_zero_counterexample:
  "nopoll_ctx_unref (Some (fresh_ctx\<lparr> refs := 0 \<rparr>)) = Inr (Some (fresh_ctx\<lparr> refs := - 1 \<rparr>), [])
   \<and> fresh_ctx\<lparr> refs := - 1 \<rparr> \<noteq> fresh_ctx\<lparr> refs := 0 \<rparr>"
  by (simp add: nopoll_ctx_unref_def INT_MIN_def fresh_ctx_def)

text \<open>
  C7. The claim: for every context and every handler, \<open>for_each\<close> calls the handler on
  the live cells in increasing slot order, returns the connection of the first cell at
  which the handler answers stop, and returns NULL after calling the handler on every
  live cell once when it never answers stop. The theorem runs the code on the context
  ten registrations and an eleventh whose allocation fails leave behind (\<open>lost10\<close>):
  \<open>conn_length\<close> is 20 and \<open>conn_list\<close> is NULL, and \<open>nopoll_ctx_foreach_conn\<close> reads
  through NULL at cell 0, whatever the handler. On a context whose block has
  \<open>conn_length\<close> cells the code does what the claim says for every handler that leaves
  the context alone (\<open>foreach_quiet_visit\<close>, \<open>foreach_quiet_in_order\<close>); the connection
  it returns is read from the cell after the handler's call, so a handler that
  unregisters the connection it is called on and answers stop gets NULL back
  (\<open>foreach_handler_unregisters\<close>).
\<close>

theorem foreach_after_failed_growth:
  "run (map (\<lambda>i. Register dirty (Some i)) [0, 1, 2, 3, 4, 5, 6, 7, 8, 9]
        @ [Register ReallocNull (Some 10)]) (Some fresh_ctx, heap0) =
     Inr (Some lost10,
          heap10\<lparr> id_of := (id_of heap10)(10 := 12),
                  logged := [(NOPOLL_LEVEL_CRITICAL,
                    ''General connection registration error, memory acquisition failed..'')] \<rparr>)
   \<and> conn_length lost10 = 20 \<and> conn_list lost10 = None
   \<and> nopoll_ctx_foreach_conn (Some lost10) (Some foreach) user_data h = Some (Inl NullDeref)"
proof -
  have "run [Register ReallocNull (Some 10)] (Some full10, heap10) =
     Inr (Some lost10,
          heap10\<lparr> id_of := (id_of heap10)(10 := 12),
                  logged := [(NOPOLL_LEVEL_CRITICAL,
                    ''General connection registration error, memory acquisition failed..'')] \<rparr>)"
    by (simp add: evaluate full10_def heap10_def lost10_def)
  then have a: "run (map (\<lambda>i. Register dirty (Some i)) [0, 1, 2, 3, 4, 5, 6, 7, 8, 9]
        @ [Register ReallocNull (Some 10)]) (Some fresh_ctx, heap0) =
     Inr (Some lost10,
          heap10\<lparr> id_of := (id_of heap10)(10 := 12),
                  logged := [(NOPOLL_LEVEL_CRITICAL,
                    ''General connection registration error, memory acquisition failed..'')] \<rparr>)"
    by (simp only: run_append ten_registered sum.case)
  have b: "conn_length lost10 = 20" "conn_list lost10 = None" by (simp_all add: lost10_def)
  have c: "nopoll_ctx_foreach_conn (Some lost10) (Some foreach) user_data h = Some (Inl NullDeref)"
    unfolding nopoll_ctx_foreach_conn_def
    by (subst foreach_loop.simps) (simp add: b slot_get_def)
  from a b c show ?thesis by simp
qed

text \<open>
  C8. The claim: in every state reached from \<open>nopoll_ctx_new\<close> by registrations and
  removals, \<open>conn_num\<close> is the number of cells that are not NULL, and \<open>nopoll_ctx_conns\<close>
  returns it. That holds along every run in which no allocation fails
  (\<open>run_from_fresh_keeps_count\<close>). When the allocation of a growing registration fails, the code has
  already raised \<open>conn_length\<close> and overwrites \<open>conn_list\<close> with NULL: the theorem runs ten
  registrations and an eleventh whose allocation fails. The run returns, the count is
  still 10, no cell holds a connection, and \<open>nopoll_ctx_foreach_conn\<close> on that context
  reads through NULL.
\<close>

theorem count_after_failed_growth:
  "run (map (\<lambda>i. Register dirty (Some i)) [0, 1, 2, 3, 4, 5, 6, 7, 8, 9]
        @ [Register ReallocNull (Some 10)]) (Some fresh_ctx, heap0) =
     Inr (Some (full10\<lparr> conn_id := 13, conn_length := 20, conn_list := None \<rparr>),
          heap10\<lparr> id_of := (id_of heap10)(10 := 12),
                  logged := [(NOPOLL_LEVEL_CRITICAL,
                    ''General connection registration error, memory acquisition failed..'')] \<rparr>)
   \<and> nopoll_ctx_conns (Some (full10\<lparr> conn_id := 13, conn_length := 20, conn_list := None \<rparr>)) = 10
   \<and> live (full10\<lparr> conn_id := 13, conn_length := 20, conn_list := None \<rparr>) = []
   \<and> nopoll_ctx_foreach_conn
        (Some (full10\<lparr> conn_id := 13, conn_length := 20, conn_list := None \<rparr>))
        (Some (quiet (\<lambda>ctx p u. (False, u)))) () h = Some (Inl NullDeref)"
proof -
  have "nopoll_ctx_foreach_conn
        (Some (full10\<lparr> conn_id := 13, conn_length := 20, conn_list := None \<rparr>))
        (Some (quiet (\<lambda>ctx p u. (False, u)))) () h = Some (Inl NullDeref)"
    unfolding nopoll_ctx_foreach_conn_def
    by (subst foreach_loop.simps) (simp add: slot_get_def)
  then show ?thesis
    by (simp add: run_append ten_registered)
       (simp add: evaluate full10_def heap10_def nopoll_ctx_conns_def live_def cells_def)
qed




text \<open>
  C10. Every registry operation called with a null required argument is rejected without
  any state change: \<open>nopoll_ctx_register_conn\<close> and \<open>nopoll_ctx_unregister_conn\<close> with a
  NULL context or a NULL connection return at once and leave the context and the heap as
  they were, \<open>nopoll_ctx_ref\<close> on a NULL context returns false and touches no count, and
  \<open>nopoll_ctx_foreach_conn\<close> with a NULL context or a NULL handler returns NULL without
  calling the handler, the context and the heap being as they were.
\<close>

theorem null_arguments_rejected:
  "nopoll_ctx_register_conn answer None conn h = Inr (None, h)
   \<and> nopoll_ctx_register_conn answer (Some c) None h = Inr (Some c, h)
   \<and> nopoll_ctx_unregister_conn None conn h = Inr None
   \<and> nopoll_ctx_unregister_conn (Some c) None h = Inr (Some c)
   \<and> nopoll_ctx_ref None = Inr (False, None)
   \<and> nopoll_ctx_foreach_conn None foreach user_data h = Some (Inr (None, None, h, user_data, []))
   \<and> nopoll_ctx_foreach_conn (Some c) None user_data h =
       Some (Inr (None, Some c, h, user_data, []))"
  by (simp add: nopoll_ctx_register_conn.simps nopoll_ctx_unregister_conn_def
        nopoll_ctx_ref_def nopoll_ctx_foreach_conn_def)

end
